theory Spec2Isabelle
  imports Complex_Main "HOL-Library.AList"
begin

section \<open>Python values, dictionaries and exceptions\<close>

text \<open>
  The credential store of \<^verbatim>\<open>linkapp/authentication/manager.py\<close> receives its
  arguments as keyword dictionaries decoded from JSON. The scalar JSON values are
  modelled; a Python \<^verbatim>\<open>str\<close> is a \<open>string\<close> holding its UTF-8 bytes, so a code
  point above U+007F is a run of bytes that are all above \<open>0x7F\<close>.
  A dictionary is an association list read with \<open>map_of\<close>, written with
  \<open>AList.update\<close> (an existing key keeps its place, a new key goes last, as in
  Python) and shrunk with \<open>AList.delete\<close>.
\<close>

datatype pyval = PStr string | PBool bool | PNone

type_synonym 'v dict = "(string \<times> 'v) list"

fun truthy :: "pyval \<Rightarrow> bool" where
  "truthy (PStr s) = (s \<noteq> [])"
| "truthy (PBool b) = b"
| "truthy PNone = False"

text \<open>\<^verbatim>\<open>str(v)\<close>: how redis-py 2.x encodes a value that is written to a hash.\<close>

fun py_str :: "pyval \<Rightarrow> string" where
  "py_str (PStr s) = s"
| "py_str (PBool True) = ''True''"
| "py_str (PBool False) = ''False''"
| "py_str PNone = ''None''"

datatype error =
    ValidationError | BadUsername | UserAlreadyExists | FieldNotFound
  | KeyError | IndexError | TypeError | ValueError | DataError | TooManyRetries

section \<open>The JSON schemas\<close>

datatype jtype = JString | JBoolean

record json_schema =
  properties :: "(string \<times> jtype) list"
  required :: "string list"

definition schema :: json_schema where
  "schema = \<lparr>properties = [(''username'', JString), (''password'', JString),
                            (''encrypted'', JBoolean), (''system'', JBoolean)],
            required = [''username'']\<rparr>"

definition add_schema :: json_schema where
  "add_schema = schema\<lparr>required := [''username'', ''password'']\<rparr>"

text \<open>The \<^verbatim>\<open>"default"\<close> entries of the properties \<^verbatim>\<open>encrypted\<close> and \<^verbatim>\<open>system\<close>.\<close>

definition encrypted_default :: pyval where
  "encrypted_default = PBool False"

definition system_default :: pyval where
  "system_default = PBool False"

fun has_jtype :: "jtype \<Rightarrow> pyval \<Rightarrow> bool" where
  "has_jtype JString (PStr s) = True"
| "has_jtype JBoolean (PBool b) = True"
| "has_jtype t v = False"

text \<open>
  \<^verbatim>\<open>jsonschema.validate(kwargs, sch)\<close> returns normally exactly when every property
  that is present has its declared type and every required property is present;
  otherwise it raises \<^verbatim>\<open>ValidationError\<close>.
\<close>

definition jsonschema_validate :: "pyval dict \<Rightarrow> json_schema \<Rightarrow> bool" where
  "jsonschema_validate kwargs sch =
     (list_all (\<lambda>(name, t). case map_of kwargs name of None \<Rightarrow> True | Some v \<Rightarrow> has_jtype t v)
        (properties sch)
      \<and> list_all (\<lambda>r. map_of kwargs r \<noteq> None) (required sch))"

section \<open>Username validation\<close>

text \<open>
  \<^verbatim>\<open>re.match("^[\x00-\x7F/]+$", username)\<close>. The pattern is not a raw string, so
  the class holds the characters from NUL to DEL and the slash. The class is matched one
  or more times from the start of the string; \<^verbatim>\<open>$\<close> then matches at the end of the
  string or just before a line feed that ends it. The matcher may give back characters,
  so every stopping point inside the longest run of class characters is tried.
\<close>

definition in_class :: "char \<Rightarrow> bool" where
  "in_class c = ((0::nat) \<le> of_char c \<and> (of_char c :: nat) \<le> 0x7F \<or> c = CHR ''/'')"

definition at_dollar :: "string \<Rightarrow> nat \<Rightarrow> bool" where
  "at_dollar s k = (drop k s = [] \<or> drop k s = [CHR 0x0A])"

definition re_match :: "string \<Rightarrow> bool" where
  "re_match s = list_ex (at_dollar s) [1 ..< Suc (length (takeWhile in_class s))]"

definition validate_username :: "string \<Rightarrow> bool" where
  "validate_username username = (if re_match username then True else False)"

section \<open>The keyed store\<close>

text \<open>
  Redis, reached through redis-py with \<^verbatim>\<open>decode_responses=True\<close>, is outside the
  repository. The model keeps what the manager uses of it: a database maps a key to a
  hash, a hash maps a field to a string, and a key whose hash has no field does not
  exist.
\<close>

type_synonym rhash = "(string \<times> string) list"
type_synonym redis = "(string \<times> rhash) list"

definition hash_at :: "redis \<Rightarrow> string \<Rightarrow> rhash" where
  "hash_at db k = (case map_of db k of None \<Rightarrow> [] | Some h \<Rightarrow> h)"

definition redis_exists :: "redis \<Rightarrow> string \<Rightarrow> bool" where
  "redis_exists db k = (hash_at db k \<noteq> [])"

text \<open>\<^verbatim>\<open>DEL key\<close>: the number of keys removed, and the database without the key.\<close>

definition redis_delete :: "redis \<Rightarrow> string \<Rightarrow> nat \<times> redis" where
  "redis_delete db k = ((if redis_exists db k then 1 else 0), AList.delete k db)"

text \<open>
  \<^verbatim>\<open>hmset(name, mapping)\<close> of redis-py 2.x refuses an empty mapping with
  \<^verbatim>\<open>DataError\<close>; otherwise it sets every field to the string of its value and
  answers \<^verbatim>\<open>True\<close>.
\<close>

definition hset_all :: "pyval dict \<Rightarrow> rhash \<Rightarrow> rhash" where
  "hset_all mapping h = fold (\<lambda>(f, v). AList.update f (py_str v)) mapping h"

definition hmset :: "redis \<Rightarrow> string \<Rightarrow> pyval dict \<Rightarrow> error + (bool \<times> redis)" where
  "hmset db k mapping =
     (if mapping = [] then Inl DataError
      else Inr (True, AList.update k (hset_all mapping (hash_at db k)) db))"

text \<open>\<^verbatim>\<open>hmget(name, field)\<close> answers a list with one entry for each field asked.\<close>

definition hmget :: "redis \<Rightarrow> string \<Rightarrow> string list \<Rightarrow> string option list" where
  "hmget db k names = map (map_of (hash_at db k)) names"

text \<open>The reply of \<^verbatim>\<open>HGETALL\<close> on the wire: fields and values in one flat list.\<close>

definition hgetall_reply :: "redis \<Rightarrow> string \<Rightarrow> string list" where
  "hgetall_reply db k = concat (map (\<lambda>(f, v). [f, v]) (hash_at db k))"

text \<open>\<^verbatim>\<open>keys("user:*")\<close>: the existing keys that start with \<^verbatim>\<open>user:\<close>.\<close>

definition redis_keys_user :: "redis \<Rightarrow> string list" where
  "redis_keys_user db =
     filter (\<lambda>k. redis_exists db k \<and> take 5 k = ''user:'') (remdups (map fst db))"

section \<open>Response callbacks and the pipeline\<close>

text \<open>
  \<^verbatim>\<open>dict(zip(it, it))\<close> over one iterator pairs the reply's entries two by two, a
  later pair replacing an earlier one with the same key and an odd last entry being
  dropped. redis-py's own callback for \<^verbatim>\<open>HGETALL\<close> builds the same dictionary.
  Values of a returned record are strings or \<^verbatim>\<open>None\<close>.
\<close>

fun zip_pairs :: "string list \<Rightarrow> string option dict \<Rightarrow> string option dict" where
  "zip_pairs (f # v # rest) d = zip_pairs rest (AList.update f (Some v) d)"
| "zip_pairs rest d = d"

definition pairs_to_dict :: "string list \<Rightarrow> string option dict" where
  "pairs_to_dict response = zip_pairs response []"

definition safe_user :: "string list \<Rightarrow> string option dict" where
  "safe_user response =
     (let result = zip_pairs response []
      in AList.update ''password'' None result)"

text \<open>
  A pipeline of \<^verbatim>\<open>HGETALL\<close> commands: \<^verbatim>\<open>execute\<close> applies the pipeline's callback
  for \<^verbatim>\<open>HGETALL\<close> to each reply. With \<^verbatim>\<open>safe\<close> the callback is \<^verbatim>\<open>_safe_user\<close>.
\<close>

definition pipe_execute :: "bool \<Rightarrow> redis \<Rightarrow> string list \<Rightarrow> string option dict list" where
  "pipe_execute safe db ks =
     map (\<lambda>k. (if safe then safe_user else pairs_to_dict) (hgetall_reply db k)) ks"

section \<open>Audit events and the manager's state\<close>

text \<open>
  The messages that the emitters of \<^verbatim>\<open>queue.py\<close> hand to \<^verbatim>\<open>log\<close>, without the
  send time that \<^verbatim>\<open>log\<close> adds. \<open>emit\<close> is the state after a message has been
  delivered. The calls of the next section are the calls as they run while the broker
  takes every message; the calls over a broker that can fail follow them, and the
  connection handling is modelled on its own below.
\<close>

datatype event =
    EvExists string bool
  | EvAuthorized string "string option"
  | EvFailed string "string option"
  | EvAdded string
  | EvRemoved string
  | EvViewedListing
  | EvViewed string
  | EvViewedField string "string list"
  | EvChanged string "string list"

record mstate =
  connection :: redis
  link_log :: "event list"

definition emit :: "event \<Rightarrow> mstate \<Rightarrow> mstate" where
  "emit ev s = s\<lparr>link_log := link_log s @ [ev]\<rparr>"

text \<open>
  passlib's \<^verbatim>\<open>pbkdf2_sha256\<close> is outside the repository. What is modelled of it is
  how the password enters: PBKDF2 uses the password, in UTF-8, as the key of
  HMAC-SHA-256, and HMAC replaces a key longer than its block of 64 bytes by the digest of
  the key and fills a shorter key with NUL bytes up to the block. The rest is a
  parameter: \<open>derive\<close> computes the hash string from the key block and the salt that
  the library draws at random, \<open>digest\<close> is SHA-256, and \<open>salt_of\<close> reads the salt
  back from a hash string, answering \<open>None\<close> where the library raises
  \<^verbatim>\<open>ValueError\<close> on a string that is not one of its hashes.
\<close>

record pbkdf2 =
  derive :: "string \<Rightarrow> nat \<Rightarrow> string"
  digest :: "string \<Rightarrow> string"
  salt_of :: "string \<Rightarrow> nat option"

definition hmac_key :: "pbkdf2 \<Rightarrow> string \<Rightarrow> string" where
  "hmac_key H password =
     (let k = (if length password > 64 then digest H password else password)
      in k @ replicate (64 - length k) (CHR 0x00))"

definition hash :: "pbkdf2 \<Rightarrow> nat \<Rightarrow> string \<Rightarrow> string" where
  "hash H salt password = derive H (hmac_key H password) salt"

text \<open>\<^verbatim>\<open>verify\<close> derives the hash again under the salt of the stored one and compares.\<close>

definition verify :: "pbkdf2 \<Rightarrow> string \<Rightarrow> string \<Rightarrow> bool option" where
  "verify H password h =
     (case salt_of H h of
        None \<Rightarrow> None
      | Some salt \<Rightarrow> Some (hash H salt password = h))"

section \<open>The credential store\<close>

definition key :: "string \<Rightarrow> string" where
  "key username = ''user:'' @ username"

definition encrypt :: "pbkdf2 \<Rightarrow> nat \<Rightarrow> string \<Rightarrow> string" where
  "encrypt H salt password = hash H salt password"

definition exists :: "string \<Rightarrow> mstate \<Rightarrow> bool \<times> mstate" where
  "exists username s =
     (let k = key username;
          ex = redis_exists (connection s) k
      in (ex, emit (EvExists username ex) s))"

definition get :: "string \<Rightarrow> bool \<Rightarrow> mstate \<Rightarrow> (error + string option dict) \<times> mstate" where
  "get username safe s =
     (let result = pipe_execute safe (connection s) [key username];
          s1 = emit (EvViewed username) s
      in case result of
           [] \<Rightarrow> (Inl IndexError, s1)
         | r # _ \<Rightarrow> (Inr r, s1))"

definition list_users :: "bool \<Rightarrow> mstate \<Rightarrow> string option dict list \<times> mstate" where
  "list_users safe s =
     (let keys = redis_keys_user (connection s);
          result = pipe_execute safe (connection s) keys
      in (result, emit EvViewedListing s))"

definition get_one_field ::
  "string \<Rightarrow> string \<Rightarrow> mstate \<Rightarrow> (error + string option list) \<times> mstate" where
  "get_one_field username field s =
     (if field \<in> set [''password''] then (Inl FieldNotFound, s)
      else
        let result = hmget (connection s) (key username) [field]
        in (Inr result, emit (EvViewedField username [field]) s))"

definition delete :: "string \<Rightarrow> mstate \<Rightarrow> nat \<times> mstate" where
  "delete username s =
     (case redis_delete (connection s) (key username) of
        (result, db) \<Rightarrow> (result, s\<lparr>connection := db\<rparr>))"

text \<open>
  \<^verbatim>\<open>user['system']\<close> is read on both paths before anything is emitted: by the
  comparison when \<^verbatim>\<open>system\<close> is set, by the argument of \<^verbatim>\<open>authorized\<close> otherwise.
  A record without that field ends the call with \<^verbatim>\<open>KeyError\<close>.
\<close>

definition authenticate ::
  "pbkdf2 \<Rightarrow> string \<Rightarrow> string \<Rightarrow> bool \<Rightarrow> mstate \<Rightarrow> (error + bool) \<times> mstate" where
  "authenticate H username password system s =
     (case get username False s of
        (Inl e, s1) \<Rightarrow> (Inl e, s1)
      | (Inr user, s1) \<Rightarrow>
          if user \<noteq> [] then
            (case map_of user ''system'' of
               None \<Rightarrow> (Inl KeyError, s1)
             | Some flag \<Rightarrow>
                 if system \<and> flag \<noteq> Some ''True''
                 then (Inr False, emit (EvFailed username flag) s1)
                 else
                   let s2 = emit (EvAuthorized username flag) s1
                   in (case map_of user ''password'' of
                         None \<Rightarrow> (Inl KeyError, s2)
                       | Some None \<Rightarrow> (Inl TypeError, s2)
                       | Some (Some stored) \<Rightarrow>
                           (case verify H password stored of
                              None \<Rightarrow> (Inl ValueError, s2)
                            | Some ok \<Rightarrow> (Inr ok, s2))))
          else (Inr False, emit (EvFailed username None) s1))"

definition add :: "pbkdf2 \<Rightarrow> nat \<Rightarrow> pyval dict \<Rightarrow> mstate \<Rightarrow> (error + string) \<times> mstate" where
  "add H salt kwargs s =
     (if \<not> jsonschema_validate kwargs add_schema then (Inl ValidationError, s)
      else case (map_of kwargs ''username'', map_of kwargs ''password'') of
        (Some (PStr username), Some (PStr password)) \<Rightarrow>
          if \<not> validate_username username then (Inl BadUsername, s)
          else (case exists username s of
            (True, s1) \<Rightarrow> (Inl UserAlreadyExists, s1)
          | (False, s1) \<Rightarrow>
              let k = key username;
                  kw1 = (if \<not> truthy (case map_of kwargs ''encrypted'' of
                                         None \<Rightarrow> encrypted_default | Some v \<Rightarrow> v)
                         then AList.update ''password'' (PStr (encrypt H salt password)) kwargs
                         else kwargs);
                  kw2 = (if map_of kw1 ''encrypted'' \<noteq> None
                         then AList.delete ''encrypted'' kw1 else kw1);
                  kw3 = AList.update ''system''
                          (case map_of kw2 ''system'' of None \<Rightarrow> system_default | Some v \<Rightarrow> v)
                          kw2
              in (case hmset (connection s1) k kw3 of
                    Inl e \<Rightarrow> (Inl e, s1)
                  | Inr (_, db) \<Rightarrow>
                      (Inr username, emit (EvAdded username) (s1\<lparr>connection := db\<rparr>))))
      | _ \<Rightarrow> (Inl KeyError, s))"

definition modify :: "pbkdf2 \<Rightarrow> nat \<Rightarrow> pyval dict \<Rightarrow> mstate \<Rightarrow> (error + bool) \<times> mstate" where
  "modify H salt kwargs s =
     (if \<not> jsonschema_validate kwargs schema then (Inl ValidationError, s)
      else
        case (if \<not> truthy (case map_of kwargs ''encrypted'' of
                              None \<Rightarrow> encrypted_default | Some v \<Rightarrow> v)
              then (case map_of kwargs ''password'' of
                      None \<Rightarrow> Inl KeyError
                    | Some (PStr password) \<Rightarrow>
                        Inr (AList.update ''password'' (PStr (encrypt H salt password)) kwargs)
                    | Some _ \<Rightarrow> Inl TypeError)
              else Inr kwargs) of
          Inl e \<Rightarrow> (Inl e, s)
        | Inr kw1 \<Rightarrow>
            let kw2 = (if map_of kw1 ''encrypted'' \<noteq> None
                       then AList.delete ''encrypted'' kw1 else kw1)
            in (case map_of kw2 ''username'' of
                  Some (PStr username) \<Rightarrow>
                    let kw3 = AList.delete ''username'' kw2
                    in (case hmset (connection s) (key username) kw3 of
                          Inl e \<Rightarrow> (Inl e, s)
                        | Inr (result, db) \<Rightarrow>
                            (Inr result,
                             emit (EvChanged username (map fst kw3)) (s\<lparr>connection := db\<rparr>)))
                | _ \<Rightarrow> (Inl KeyError, s)))"

section \<open>The credential store over a broker that can fail\<close>

text \<open>
  Every emitter of \<^verbatim>\<open>queue.py\<close> goes through \<^verbatim>\<open>log\<close> and \<^verbatim>\<open>publish\<close>;
  \<^verbatim>\<open>publish\<close> reconnects when the connection is closed, and \<^verbatim>\<open>connect\<close> raises
  \<^verbatim>\<open>TooManyRetries\<close> at its bound. A message is therefore delivered, or the emitter
  raises \<^verbatim>\<open>TooManyRetries\<close> and the call of the manager that sent it ends there, with
  whatever it has written to the store before. The broker \<open>B\<close> of a call tells which of
  the messages of that call, counted from 0, are delivered. \<^verbatim>\<open>TooManyRetries\<close> is the
  one exception that \<^verbatim>\<open>queue.py\<close> raises itself; exceptions of the broker library
  other than the closed connection are not modelled.
\<close>

definition publish :: "bool \<Rightarrow> event \<Rightarrow> mstate \<Rightarrow> error + mstate" where
  "publish delivered ev s = (if delivered then Inr (emit ev s) else Inl TooManyRetries)"

definition exists_over :: "(nat \<Rightarrow> bool) \<Rightarrow> string \<Rightarrow> mstate \<Rightarrow> (error + bool) \<times> mstate" where
  "exists_over B username s =
     (let k = key username;
          ex = redis_exists (connection s) k
      in case publish (B 0) (EvExists username ex) s of
           Inl e \<Rightarrow> (Inl e, s)
         | Inr s1 \<Rightarrow> (Inr ex, s1))"

definition get_over ::
  "(nat \<Rightarrow> bool) \<Rightarrow> string \<Rightarrow> bool \<Rightarrow> mstate \<Rightarrow> (error + string option dict) \<times> mstate" where
  "get_over B username safe s =
     (let result = pipe_execute safe (connection s) [key username]
      in case publish (B 0) (EvViewed username) s of
           Inl e \<Rightarrow> (Inl e, s)
         | Inr s1 \<Rightarrow>
             (case result of
                [] \<Rightarrow> (Inl IndexError, s1)
              | r # _ \<Rightarrow> (Inr r, s1)))"

definition list_users_over ::
  "(nat \<Rightarrow> bool) \<Rightarrow> bool \<Rightarrow> mstate \<Rightarrow> (error + string option dict list) \<times> mstate" where
  "list_users_over B safe s =
     (let keys = redis_keys_user (connection s);
          result = pipe_execute safe (connection s) keys
      in case publish (B 0) EvViewedListing s of
           Inl e \<Rightarrow> (Inl e, s)
         | Inr s1 \<Rightarrow> (Inr result, s1))"

definition get_one_field_over ::
  "(nat \<Rightarrow> bool) \<Rightarrow> string \<Rightarrow> string \<Rightarrow> mstate \<Rightarrow> (error + string option list) \<times> mstate" where
  "get_one_field_over B username field s =
     (if field \<in> set [''password''] then (Inl FieldNotFound, s)
      else
        let result = hmget (connection s) (key username) [field]
        in case publish (B 0) (EvViewedField username [field]) s of
             Inl e \<Rightarrow> (Inl e, s)
           | Inr s1 \<Rightarrow> (Inr result, s1))"

definition authenticate_over ::
  "(nat \<Rightarrow> bool) \<Rightarrow> pbkdf2 \<Rightarrow> string \<Rightarrow> string \<Rightarrow> bool \<Rightarrow> mstate \<Rightarrow> (error + bool) \<times> mstate" where
  "authenticate_over B H username password system s =
     (case get_over B username False s of
        (Inl e, s1) \<Rightarrow> (Inl e, s1)
      | (Inr user, s1) \<Rightarrow>
          if user \<noteq> [] then
            (case map_of user ''system'' of
               None \<Rightarrow> (Inl KeyError, s1)
             | Some flag \<Rightarrow>
                 if system \<and> flag \<noteq> Some ''True''
                 then (case publish (B 1) (EvFailed username flag) s1 of
                         Inl e \<Rightarrow> (Inl e, s1)
                       | Inr s2 \<Rightarrow> (Inr False, s2))
                 else
                   (case publish (B 1) (EvAuthorized username flag) s1 of
                      Inl e \<Rightarrow> (Inl e, s1)
                    | Inr s2 \<Rightarrow>
                        (case map_of user ''password'' of
                           None \<Rightarrow> (Inl KeyError, s2)
                         | Some None \<Rightarrow> (Inl TypeError, s2)
                         | Some (Some stored) \<Rightarrow>
                             (case verify H password stored of
                                None \<Rightarrow> (Inl ValueError, s2)
                              | Some ok \<Rightarrow> (Inr ok, s2)))))
          else (case publish (B 1) (EvFailed username None) s1 of
                  Inl e \<Rightarrow> (Inl e, s1)
                | Inr s2 \<Rightarrow> (Inr False, s2)))"

text \<open>
  \<^verbatim>\<open>add\<close> sends the \<^verbatim>\<open>exists\<close> event of its check first and the \<^verbatim>\<open>added\<close> event
  after \<^verbatim>\<open>hmset\<close>: when the second message is not delivered the call raises and the
  record stays written.
\<close>

definition add_over ::
  "(nat \<Rightarrow> bool) \<Rightarrow> pbkdf2 \<Rightarrow> nat \<Rightarrow> pyval dict \<Rightarrow> mstate \<Rightarrow> (error + string) \<times> mstate" where
  "add_over B H salt kwargs s =
     (if \<not> jsonschema_validate kwargs add_schema then (Inl ValidationError, s)
      else case (map_of kwargs ''username'', map_of kwargs ''password'') of
        (Some (PStr username), Some (PStr password)) \<Rightarrow>
          if \<not> validate_username username then (Inl BadUsername, s)
          else (case exists_over B username s of
            (Inl e, s1) \<Rightarrow> (Inl e, s1)
          | (Inr True, s1) \<Rightarrow> (Inl UserAlreadyExists, s1)
          | (Inr False, s1) \<Rightarrow>
              let k = key username;
                  kw1 = (if \<not> truthy (case map_of kwargs ''encrypted'' of
                                         None \<Rightarrow> encrypted_default | Some v \<Rightarrow> v)
                         then AList.update ''password'' (PStr (encrypt H salt password)) kwargs
                         else kwargs);
                  kw2 = (if map_of kw1 ''encrypted'' \<noteq> None
                         then AList.delete ''encrypted'' kw1 else kw1);
                  kw3 = AList.update ''system''
                          (case map_of kw2 ''system'' of None \<Rightarrow> system_default | Some v \<Rightarrow> v)
                          kw2
              in (case hmset (connection s1) k kw3 of
                    Inl e \<Rightarrow> (Inl e, s1)
                  | Inr (_, db) \<Rightarrow>
                      (case publish (B 1) (EvAdded username) (s1\<lparr>connection := db\<rparr>) of
                         Inl e \<Rightarrow> (Inl e, s1\<lparr>connection := db\<rparr>)
                       | Inr s2 \<Rightarrow> (Inr username, s2))))
      | _ \<Rightarrow> (Inl KeyError, s))"

text \<open>\<^verbatim>\<open>modify\<close> sends its one message, the \<^verbatim>\<open>changed\<close> event, after \<^verbatim>\<open>hmset\<close>.\<close>

definition modify_over ::
  "(nat \<Rightarrow> bool) \<Rightarrow> pbkdf2 \<Rightarrow> nat \<Rightarrow> pyval dict \<Rightarrow> mstate \<Rightarrow> (error + bool) \<times> mstate" where
  "modify_over B H salt kwargs s =
     (if \<not> jsonschema_validate kwargs schema then (Inl ValidationError, s)
      else
        case (if \<not> truthy (case map_of kwargs ''encrypted'' of
                              None \<Rightarrow> encrypted_default | Some v \<Rightarrow> v)
              then (case map_of kwargs ''password'' of
                      None \<Rightarrow> Inl KeyError
                    | Some (PStr password) \<Rightarrow>
                        Inr (AList.update ''password'' (PStr (encrypt H salt password)) kwargs)
                    | Some _ \<Rightarrow> Inl TypeError)
              else Inr kwargs) of
          Inl e \<Rightarrow> (Inl e, s)
        | Inr kw1 \<Rightarrow>
            let kw2 = (if map_of kw1 ''encrypted'' \<noteq> None
                       then AList.delete ''encrypted'' kw1 else kw1)
            in (case map_of kw2 ''username'' of
                  Some (PStr username) \<Rightarrow>
                    let kw3 = AList.delete ''username'' kw2
                    in (case hmset (connection s) (key username) kw3 of
                          Inl e \<Rightarrow> (Inl e, s)
                        | Inr (result, db) \<Rightarrow>
                            (case publish (B 0) (EvChanged username (map fst kw3))
                                    (s\<lparr>connection := db\<rparr>) of
                               Inl e \<Rightarrow> (Inl e, s\<lparr>connection := db\<rparr>)
                             | Inr s1 \<Rightarrow> (Inr result, s1)))
                | _ \<Rightarrow> (Inl KeyError, s)))"

text \<open>
  Three brokers: one that takes every message, one that takes only the first message of
  a call, and one that takes none.
\<close>

definition up :: "nat \<Rightarrow> bool" where
  "up i = True"

definition first_only :: "nat \<Rightarrow> bool" where
  "first_only i = (i = 0)"

definition down :: "nat \<Rightarrow> bool" where
  "down i = False"

section \<open>The event messenger's connection\<close>

text \<open>
  \<^verbatim>\<open>AuthenticationMessenger\<close> of \<^verbatim>\<open>queue.py\<close>. The broker is a parameter: it tells
  whether the attempt with a given number opens a connection or raises
  \<^verbatim>\<open>ConnectionClosed\<close>. The calls of \<^verbatim>\<open>time.sleep\<close> are recorded in \<open>slept\<close>, and
  \<open>channels\<close> names the attempt that opened the connection and the two channels that
  the object holds, if any.
  \<^verbatim>\<open>retry_sleep_start\<close> is a rational number, and the product with the square of
  \<^verbatim>\<open>retries\<close> is exact.
\<close>

record messenger =
  retries :: int
  max_retries :: int
  retry_sleep_start :: rat
  channels :: "nat option"
  attempted :: nat
  slept :: "rat list"

definition wait :: "messenger \<Rightarrow> rat" where
  "wait m = retry_sleep_start m * (of_int (retries m)) ^ 2"

function connect :: "(nat \<Rightarrow> bool) \<Rightarrow> messenger \<Rightarrow> (error + unit) \<times> messenger" where
  "connect broker m =
     (if retries m \<ge> max_retries m then (Inl TooManyRetries, m)
      else if broker (attempted m)
      then (Inr (), m\<lparr>channels := Some (attempted m), retries := 0,
                       attempted := Suc (attempted m)\<rparr>)
      else connect broker
             (m\<lparr>attempted := Suc (attempted m),
                slept := slept m @ [wait m], retries := retries m + 1\<rparr>))"
  by pat_completeness auto
termination
  by (relation "measure (\<lambda>(broker, m). nat (max_retries m - retries m))") auto

text \<open>\<^verbatim>\<open>__init__\<close>: the counter starts at 1 and the first connection is made.\<close>

definition messenger_init ::
  "(nat \<Rightarrow> bool) \<Rightarrow> int \<Rightarrow> rat \<Rightarrow> (error + unit) \<times> messenger" where
  "messenger_init broker max_retries' retry_sleep_start' =
     connect broker \<lparr>retries = 1, max_retries = max_retries',
                     retry_sleep_start = retry_sleep_start',
                     channels = None, attempted = 0, slept = []\<rparr>"

section \<open>Redaction, call histories and sample data\<close>

text \<open>
  A returned record is redacted when its \<^verbatim>\<open>password\<close> key is present with the
  value \<^verbatim>\<open>None\<close> and no entry under that key carries a string.
\<close>

definition redacted :: "string option dict \<Rightarrow> bool" where
  "redacted d = (map_of d ''password'' = Some None
                 \<and> list_all (\<lambda>(k, v). k = ''password'' \<longrightarrow> v = None) d)"

text \<open>
  A history of calls on one manager, each with the broker it meets. \<open>step\<close> is the
  state a call leaves behind, whether it returns or raises. \<^verbatim>\<open>delete\<close> sends no
  message.
\<close>

datatype call =
    Add "nat \<Rightarrow> bool" nat "pyval dict"
  | Modify "nat \<Rightarrow> bool" nat "pyval dict"
  | Delete string
  | Exists "nat \<Rightarrow> bool" string
  | Authenticate "nat \<Rightarrow> bool" string string bool
  | Get "nat \<Rightarrow> bool" string bool
  | GetOneField "nat \<Rightarrow> bool" string string
  | ListUsers "nat \<Rightarrow> bool" bool

fun step :: "pbkdf2 \<Rightarrow> call \<Rightarrow> mstate \<Rightarrow> mstate" where
  "step H (Add B salt kwargs) s = snd (add_over B H salt kwargs s)"
| "step H (Modify B salt kwargs) s = snd (modify_over B H salt kwargs s)"
| "step H (Delete username) s = snd (delete username s)"
| "step H (Exists B username) s = snd (exists_over B username s)"
| "step H (Authenticate B username password system) s =
     snd (authenticate_over B H username password system s)"
| "step H (Get B username safe) s = snd (get_over B username safe s)"
| "step H (GetOneField B username field) s = snd (get_one_field_over B username field s)"
| "step H (ListUsers B safe) s = snd (list_users_over B safe s)"

fun run :: "pbkdf2 \<Rightarrow> call list \<Rightarrow> mstate \<Rightarrow> mstate" where
  "run H [] s = s"
| "run H (c # cs) s = run H cs (step H c s)"

text \<open>The call is an \<^verbatim>\<open>add\<close> that returned the username: the \<^verbatim>\<open>add\<close> succeeded.\<close>

fun add_returned :: "pbkdf2 \<Rightarrow> call \<Rightarrow> mstate \<Rightarrow> string \<Rightarrow> bool" where
  "add_returned H (Add B salt kwargs) s u = (fst (add_over B H salt kwargs s) = Inr u)"
| "add_returned H c s u = False"

text \<open>
  The call is an \<^verbatim>\<open>add\<close> for the username that returned, or that raised
  \<^verbatim>\<open>TooManyRetries\<close> from its \<^verbatim>\<open>added\<close> event, the \<^verbatim>\<open>exists\<close> event before it
  having been delivered.
\<close>

fun add_wrote :: "pbkdf2 \<Rightarrow> call \<Rightarrow> mstate \<Rightarrow> string \<Rightarrow> bool" where
  "add_wrote H (Add B salt kwargs) s u =
     (fst (add_over B H salt kwargs s) = Inr u
      \<or> (fst (add_over B H salt kwargs s) = Inl TooManyRetries \<and> B 0
          \<and> map_of kwargs ''username'' = Some (PStr u)))"
| "add_wrote H c s u = False"

text \<open>
  The call is a \<^verbatim>\<open>modify\<close> for the username that returned, or that raised
  \<^verbatim>\<open>TooManyRetries\<close> from its \<^verbatim>\<open>changed\<close> event.
\<close>

fun modify_wrote :: "pbkdf2 \<Rightarrow> call \<Rightarrow> mstate \<Rightarrow> string \<Rightarrow> bool" where
  "modify_wrote H (Modify B salt kwargs) s u =
     (map_of kwargs ''username'' = Some (PStr u)
      \<and> (case fst (modify_over B H salt kwargs s) of
            Inl e \<Rightarrow> e = TooManyRetries
          | Inr r \<Rightarrow> True))"
| "modify_wrote H c s u = False"

fun deletes :: "call \<Rightarrow> string \<Rightarrow> bool" where
  "deletes (Delete username) u = (username = u)"
| "deletes c u = False"

text \<open>
  The specification's invariant, in its words: a record exists if and only if an
  \<^verbatim>\<open>add\<close> for the username succeeded and no \<^verbatim>\<open>delete\<close> has run since. The last
  argument says whether the record existed before the history.
\<close>

fun added_not_deleted :: "pbkdf2 \<Rightarrow> string \<Rightarrow> call list \<Rightarrow> mstate \<Rightarrow> bool \<Rightarrow> bool" where
  "added_not_deleted H u [] s b = b"
| "added_not_deleted H u (c # cs) s b =
     added_not_deleted H u cs (step H c s)
       (if deletes c u then False
        else if add_returned H c s u then True
        else b)"

text \<open>
  The same reading of a history, with every \<^verbatim>\<open>add\<close> and \<^verbatim>\<open>modify\<close> that got as
  far as its \<^verbatim>\<open>hmset\<close> counted as a write.
\<close>

fun written_not_deleted :: "pbkdf2 \<Rightarrow> string \<Rightarrow> call list \<Rightarrow> mstate \<Rightarrow> bool \<Rightarrow> bool" where
  "written_not_deleted H u [] s b = b"
| "written_not_deleted H u (c # cs) s b =
     written_not_deleted H u cs (step H c s)
       (if deletes c u then False
        else if add_wrote H c s u \<or> modify_wrote H c s u then True
        else b)"

text \<open>
  Sample data for applying the theorems to concrete inputs: a stand-in for the
  parameters of the hash function that writes the salt as a run of \<^verbatim>\<open>$\<close> in front of
  the key block without its padding, an empty store, and a store holding the ordinary
  account \<^verbatim>\<open>alice\<close> with the password \<^verbatim>\<open>secret\<close>.
\<close>

definition strip_nul :: "string \<Rightarrow> string" where
  "strip_nul k = rev (dropWhile (\<lambda>c. c = CHR 0x00) (rev k))"

definition demo_pbkdf2 :: pbkdf2 where
  "demo_pbkdf2 =
     \<lparr>derive = (\<lambda>k salt. replicate salt (CHR ''$'') @ CHR ''#'' # strip_nul k),
      digest = take 32,
      salt_of = (\<lambda>h. if CHR ''#'' \<in> set h
                      then Some (length (takeWhile (\<lambda>c. c = CHR ''$'') h))
                      else None)\<rparr>"

definition empty_state :: mstate where
  "empty_state = \<lparr>connection = [], link_log = []\<rparr>"

definition demo_state :: mstate where
  "demo_state =
     \<lparr>connection = [(''user:alice'', [(''username'', ''alice''),
                                       (''password'', ''$$$#secret''),
                                       (''system'', ''False'')])],
      link_log = []\<rparr>"

definition naive :: string where
  "naive = ''na'' @ [CHR 0xC3, CHR 0xAF] @ ''ve''"

section \<open>Facts about dictionaries and the store\<close>

lemma map_of_fold_update:
  "distinct (map fst xs) \<Longrightarrow>
   map_of (fold (\<lambda>(k, v). AList.update k (g v)) xs d) k
     = (case map_of xs k of Some v \<Rightarrow> Some (g v) | None \<Rightarrow> map_of d k)"
proof (induction xs arbitrary: d)
  case Nil
  then show ?case by simp
next
  case (Cons x xs)
  obtain k' v' where x: "x = (k', v')" by (cases x)
  from Cons.prems have d: "distinct (map fst xs)" and nin: "k' \<notin> fst ` set xs"
    by (auto simp: x)
  have "map_of xs k' = None" using nin by (simp add: map_of_eq_None_iff)
  then show ?case
    using Cons.IH[OF d] by (auto simp: x update_conv' split: option.splits)
qed

lemma fold_update_nonempty:
  "xs \<noteq> [] \<or> d \<noteq> [] \<Longrightarrow> fold (\<lambda>(k, v). AList.update k (g v)) xs d \<noteq> []"
  by (induction xs arbitrary: d) (auto simp: split_beta)

lemma distinct_fold_update:
  "distinct (map fst d) \<Longrightarrow>
   distinct (map fst (fold (\<lambda>(k, v). AList.update k (g v)) xs d))"
  by (induction xs arbitrary: d) (auto simp: split_beta distinct_update)

lemma hset_all_nonempty: "mapping \<noteq> [] \<Longrightarrow> hset_all mapping h \<noteq> []"
  unfolding hset_all_def by (rule fold_update_nonempty) simp

lemma hash_at_update:
  "hash_at (AList.update k h db) k' = (if k' = k then h else hash_at db k')"
  by (simp add: hash_at_def update_conv')

lemma hash_at_delete:
  "hash_at (AList.delete k db) k' = (if k' = k then [] else hash_at db k')"
  by (simp add: hash_at_def delete_conv')

lemma redis_exists_update:
  "redis_exists (AList.update k h db) k' = (if k' = k then h \<noteq> [] else redis_exists db k')"
  by (simp add: redis_exists_def hash_at_update)

lemma redis_exists_delete:
  "redis_exists (AList.delete k db) k' = (k' \<noteq> k \<and> redis_exists db k')"
  by (simp add: redis_exists_def hash_at_delete)

lemma key_inject: "key u = key u' \<longleftrightarrow> u = u'"
  by (simp add: key_def)

lemma zip_pairs_reply:
  "zip_pairs (concat (map (\<lambda>(f, v). [f, v]) h)) d
     = fold (\<lambda>(f, v). AList.update f (Some v)) h d"
  by (induction h arbitrary: d) (auto simp: split_beta)

lemma distinct_zip_pairs:
  "distinct (map fst d) \<Longrightarrow> distinct (map fst (zip_pairs r d))"
  by (induction r d rule: zip_pairs.induct) (simp_all add: distinct_update)

text \<open>The unredacted view of a hash with distinct fields holds exactly its entries.\<close>

lemma unsafe_view_lookup:
  "distinct (map fst (hash_at db k)) \<Longrightarrow>
   map_of (pairs_to_dict (hgetall_reply db k)) f = map_option Some (map_of (hash_at db k) f)"
  by (simp add: pairs_to_dict_def hgetall_reply_def zip_pairs_reply map_of_fold_update
      split: option.splits)

lemma unsafe_view_nonempty:
  "pairs_to_dict (hgetall_reply db k) \<noteq> [] \<longleftrightarrow> redis_exists db k"
proof -
  have "fold (\<lambda>(f, v). AList.update f (Some v)) h [] \<noteq> [] \<longleftrightarrow> h \<noteq> []" for h :: rhash
    using fold_update_nonempty[of h "[]" Some] by (cases h) auto
  then show ?thesis
    by (simp add: pairs_to_dict_def hgetall_reply_def zip_pairs_reply redis_exists_def)
qed

lemma hgetall_absent: "\<not> redis_exists db k \<Longrightarrow> hgetall_reply db k = []"
  by (simp add: redis_exists_def hgetall_reply_def)

section \<open>Reading records\<close>

lemma get_safe:
  "get username True s
     = (Inr (safe_user (hgetall_reply (connection s) (key username))),
        emit (EvViewed username) s)"
  by (simp add: get_def pipe_execute_def)

lemma get_unsafe:
  "get username False s
     = (Inr (pairs_to_dict (hgetall_reply (connection s) (key username))),
        emit (EvViewed username) s)"
  by (simp add: get_def pipe_execute_def)

lemma redacted_safe_user: "redacted (safe_user r)"
proof -
  let ?d = "AList.update ''password'' None (zip_pairs r [])"
  have dist: "distinct (map fst ?d)"
    by (simp add: distinct_update distinct_zip_pairs)
  have look: "map_of ?d ''password'' = Some None"
    by (simp add: update_conv')
  have "v = None" if "(''password'', v) \<in> set ?d" for v
    using dist look that by (metis map_of_is_SomeI option.inject)
  then show ?thesis
    unfolding redacted_def safe_user_def Let_def list_all_iff using look by auto
qed

lemma list_users_safe: "list_all redacted (fst (list_users True s))"
  by (simp add: list_users_def pipe_execute_def list_all_iff redacted_safe_user)

text \<open>
  Claim C1. Every view that is handed out hides the password: \<^verbatim>\<open>get\<close> with the
  default safe view returns a record whose \<^verbatim>\<open>password\<close> is \<^verbatim>\<open>None\<close>, every record
  of \<^verbatim>\<open>list_users\<close> with the safe view is of that kind, and \<^verbatim>\<open>get_one_field\<close> for
  a field other than \<^verbatim>\<open>password\<close> returns the stored value of that field alone. The
  redaction is the response callback of the fetch itself.
\<close>

theorem safe_views_hide_password:
  "(\<exists>d. fst (get username True s) = Inr d \<and> redacted d)
   \<and> list_all redacted (fst (list_users True s))
   \<and> (field \<noteq> ''password'' \<longrightarrow>
        fst (get_one_field username field s)
          = Inr [map_of (hash_at (connection s) (key username)) field])"
  by (simp add: get_safe redacted_safe_user list_users_safe get_one_field_def hmget_def)

theorem safe_views_hide_password_witness:
  "fst (get ''alice'' True demo_state)
     = Inr [(''username'', Some ''alice''), (''password'', None), (''system'', Some ''False'')]
   \<and> fst (list_users True demo_state)
     = [[(''username'', Some ''alice''), (''password'', None), (''system'', Some ''False'')]]
   \<and> redacted [(''username'', Some ''alice''), (''password'', None), (''system'', Some ''False'')]
   \<and> ''system'' \<noteq> ''password''
   \<and> fst (get_one_field ''alice'' ''system'' demo_state) = Inr [Some ''False'']"
  using safe_views_hide_password[of "''alice''" demo_state "''system''"]
  by (simp add: demo_state_def get_def list_users_def pipe_execute_def safe_user_def
        hgetall_reply_def hash_at_def key_def redacted_def redis_keys_user_def
        redis_exists_def get_one_field_def hmget_def)

text \<open>
  Claim C10. For a username without a record, \<^verbatim>\<open>get\<close> with the safe view returns a
  record of exactly one entry, \<^verbatim>\<open>password\<close> mapped to \<^verbatim>\<open>None\<close>: the callback puts
  the key into the empty mapping that was fetched.
\<close>

theorem get_absent_user:
  "\<not> redis_exists (connection s) (key username) \<Longrightarrow>
   get username True s = (Inr [(''password'', None)], emit (EvViewed username) s)"
  by (simp add: get_safe hgetall_absent safe_user_def)

theorem get_absent_user_witness:
  "\<not> redis_exists (connection empty_state) (key ''ghost'')
   \<and> get ''ghost'' True empty_state
       = (Inr [(''password'', None)], \<lparr>connection = [], link_log = [EvViewed ''ghost'']\<rparr>)"
proof -
  have h: "\<not> redis_exists (connection empty_state) (key ''ghost'')"
    by (simp add: empty_state_def redis_exists_def hash_at_def)
  show ?thesis
    using h get_absent_user[OF h] by (simp add: empty_state_def emit_def)
qed

lemma get_one_field_password:
  "get_one_field username ''password'' s = (Inl FieldNotFound, s)"
  by (simp add: get_one_field_def)

text \<open>
  Claim C9. \<^verbatim>\<open>get_one_field\<close> raises \<^verbatim>\<open>FieldNotFound\<close> for the field
  \<^verbatim>\<open>password\<close> (lemma \<open>get_one_field_password\<close>). For another field that the record
  lacks it does not return \<^verbatim>\<open>None\<close>: it returns the reply of \<^verbatim>\<open>hmget\<close>, a list
  of one entry that is \<^verbatim>\<open>None\<close>. The account \<^verbatim>\<open>alice\<close> has no field \<^verbatim>\<open>email\<close>.
\<close>

theorem get_one_field_absent:
  "get_one_field ''alice'' ''email'' demo_state
     = (Inr [None], emit (EvViewedField ''alice'' [''email'']) demo_state)"
  by (simp add: get_one_field_def hmget_def demo_state_def hash_at_def key_def)

section \<open>Username validation\<close>

lemma in_class_iff: "in_class c \<longleftrightarrow> (of_char c :: nat) \<le> 127"
  by (auto simp: in_class_def)

lemma validate_username_ascii:
  "validate_username u \<longleftrightarrow> u \<noteq> [] \<and> (\<forall>c\<in>set u. (of_char c :: nat) \<le> 127)"
proof
  assume "validate_username u"
  then obtain k where k: "1 \<le> k" "k \<le> length (takeWhile in_class u)" "at_dollar u k"
    by (auto simp: validate_username_def re_match_def list_ex_iff split: if_splits)
  have le: "length (takeWhile in_class u) \<le> length u" by (rule length_takeWhile_le)
  from k(3) show "u \<noteq> [] \<and> (\<forall>c\<in>set u. (of_char c :: nat) \<le> 127)"
    unfolding at_dollar_def
  proof
    assume "drop k u = []"
    with k le have "length (takeWhile in_class u) = length u" by simp
    then have "takeWhile in_class u = u"
      by (metis takeWhile_eq_take take_all order_refl)
    then have "\<forall>c\<in>set u. in_class c" by (metis set_takeWhileD)
    moreover from k le have "u \<noteq> []" by auto
    ultimately show ?thesis by (simp add: in_class_iff)
  next
    assume d: "drop k u = [CHR 0x0A]"
    have "length (drop k u) = 1" by (simp add: d)
    then have len: "length u = Suc k" by simp
    have u: "u = take k u @ [CHR 0x0A]" using d by (metis append_take_drop_id)
    have "take k (takeWhile in_class u) = take k u"
      using k(2) by (metis takeWhile_eq_take take_take min.absorb1)
    then have "\<forall>c\<in>set (take k u). in_class c"
      by (metis in_set_takeD set_takeWhileD)
    moreover have "in_class (CHR 0x0A)" by (simp add: in_class_def)
    ultimately have "\<forall>c\<in>set u. in_class c" using u
      by (metis Un_iff empty_iff empty_set set_ConsD set_append)
    then show ?thesis using len by (auto simp: in_class_iff)
  qed
next
  assume a: "u \<noteq> [] \<and> (\<forall>c\<in>set u. (of_char c :: nat) \<le> 127)"
  then have tw: "takeWhile in_class u = u" by (simp add: in_class_iff)
  from a have "0 < length u" by simp
  then have "length u \<in> set [1 ..< Suc (length (takeWhile in_class u))]"
    by (simp add: tw Suc_le_eq)
  moreover have "at_dollar u (length u)" by (simp add: at_dollar_def)
  ultimately have "re_match u" unfolding re_match_def list_ex_iff by blast
  then show "validate_username u" by (simp add: validate_username_def)
qed

lemma schema_add_fields:
  assumes "jsonschema_validate kwargs add_schema"
  shows "\<exists>u p. map_of kwargs ''username'' = Some (PStr u)
             \<and> map_of kwargs ''password'' = Some (PStr p)"
proof -
  from assms obtain a b where
    ab: "map_of kwargs ''username'' = Some a" "map_of kwargs ''password'' = Some b"
    by (auto simp: jsonschema_validate_def add_schema_def schema_def)
  with assms have "has_jtype JString a" "has_jtype JString b"
    by (auto simp: jsonschema_validate_def add_schema_def schema_def)
  then show ?thesis using ab by (cases a; cases b) auto
qed

lemma add_bad_username:
  assumes "jsonschema_validate kwargs add_schema"
    and "map_of kwargs ''username'' = Some (PStr u)"
    and "\<not> validate_username u"
  shows "add H salt kwargs s = (Inl BadUsername, s)"
proof -
  from schema_add_fields[OF assms(1)] assms(2)
  obtain p where "map_of kwargs ''password'' = Some (PStr p)" by auto
  with assms show ?thesis by (simp add: add_def)
qed

lemma sample_usernames:
  "validate_username ''alice''" "validate_username ''svc/worker-1''"
  "validate_username ''bad user''" "\<not> validate_username naive"
  by (simp_all add: validate_username_ascii naive_def)

text \<open>
  Claim C4, as the specification states it, has the username \<^verbatim>\<open>bad user\<close> rejected.
  The space is a 7-bit ASCII character, so the pattern matches: the username is
  accepted, and \<^verbatim>\<open>add\<close> creates the account.
\<close>

theorem bad_user_accepted:
  "validate_username ''bad user''
   \<and> fst (add demo_pbkdf2 0 [(''username'', PStr ''bad user''), (''password'', PStr ''pw'')]
             empty_state) = Inr ''bad user''"
  by (simp add: validate_username_ascii add_def jsonschema_validate_def add_schema_def
        schema_def exists_def redis_exists_def hash_at_def empty_state_def key_def
        encrypted_default_def system_default_def hmset_def emit_def)

text \<open>
  Claim C4, amended. Username validation accepts exactly the non-empty strings of
  7-bit ASCII characters (the slash is one of them). \<^verbatim>\<open>alice\<close>,
  \<^verbatim>\<open>svc/worker-1\<close> and \<^verbatim>\<open>bad user\<close> are accepted, the string \<open>naive\<close>
  (whose third character is an i with diaeresis, two bytes in UTF-8) is rejected, and
  \<^verbatim>\<open>add\<close> raises \<^verbatim>\<open>BadUsername\<close> for a rejected username without touching
  the store.
\<close>

theorem username_validation:
  "(validate_username u \<longleftrightarrow> u \<noteq> [] \<and> (\<forall>c\<in>set u. (of_char c :: nat) \<le> 0x7F))
   \<and> validate_username ''alice'' \<and> validate_username ''svc/worker-1''
   \<and> validate_username ''bad user'' \<and> \<not> validate_username naive
   \<and> (jsonschema_validate kwargs add_schema
        \<and> map_of kwargs ''username'' = Some (PStr u') \<and> \<not> validate_username u'
      \<longrightarrow> add H salt kwargs s = (Inl BadUsername, s))"
  using validate_username_ascii[of u] sample_usernames add_bad_username[of kwargs u' H salt s]
  by simp

theorem username_validation_witness:
  "validate_username ''svc/worker-1''
   \<and> ''svc/worker-1'' \<noteq> []
   \<and> list_all (\<lambda>c. (of_char c :: nat) \<le> 0x7F) ''svc/worker-1''
   \<and> jsonschema_validate [(''username'', PStr naive), (''password'', PStr ''pw'')] add_schema
   \<and> \<not> validate_username naive
   \<and> add demo_pbkdf2 0 [(''username'', PStr naive), (''password'', PStr ''pw'')] empty_state
       = (Inl BadUsername, empty_state)"
  using username_validation[of "''svc/worker-1''"
          "[(''username'', PStr naive), (''password'', PStr ''pw'')]" naive
          demo_pbkdf2 0 empty_state]
  by (simp add: jsonschema_validate_def add_schema_def schema_def)

section \<open>Adding a user\<close>

text \<open>The four ways in which \<^verbatim>\<open>add\<close> can end.\<close>

lemma add_outcome:
  "add H salt kwargs s = (Inl ValidationError, s)
   \<or> add H salt kwargs s = (Inl BadUsername, s)
   \<or> (\<exists>u. add H salt kwargs s = (Inl UserAlreadyExists, emit (EvExists u True) s))
   \<or> (\<exists>u mapping. mapping \<noteq> [] \<and> \<not> redis_exists (connection s) (key u)
        \<and> add H salt kwargs s =
            (Inr u, \<lparr>connection = AList.update (key u) (hset_all mapping []) (connection s),
                     link_log = link_log s @ [EvExists u False, EvAdded u]\<rparr>))"
proof (cases "jsonschema_validate kwargs add_schema")
  case False
  then show ?thesis by (simp add: add_def)
next
  case valid: True
  from schema_add_fields[OF valid] obtain u p where
    up: "map_of kwargs ''username'' = Some (PStr u)"
        "map_of kwargs ''password'' = Some (PStr p)"
    by blast
  show ?thesis
  proof (cases "validate_username u")
    case False
    then show ?thesis using valid up by (simp add: add_def)
  next
    case vu: True
    show ?thesis
    proof (cases "redis_exists (connection s) (key u)")
      case True
      then have "add H salt kwargs s = (Inl UserAlreadyExists, emit (EvExists u True) s)"
        using valid up vu by (simp add: add_def exists_def)
      then show ?thesis by blast
    next
      case nex: False
      define kw1 where "kw1 = (if \<not> truthy (case map_of kwargs ''encrypted'' of
                                         None \<Rightarrow> encrypted_default | Some v \<Rightarrow> v)
                         then AList.update ''password'' (PStr (encrypt H salt p)) kwargs
                         else kwargs)"
      define kw2 where "kw2 = (if map_of kw1 ''encrypted'' \<noteq> None
                         then AList.delete ''encrypted'' kw1 else kw1)"
      define kw3 where "kw3 = AList.update ''system''
                          (case map_of kw2 ''system'' of None \<Rightarrow> system_default | Some v \<Rightarrow> v)
                          kw2"
      have h0: "hash_at (connection s) (key u) = []"
        using nex by (simp add: redis_exists_def)
      have "add H salt kwargs s =
         (Inr u, \<lparr>connection = AList.update (key u) (hset_all kw3 []) (connection s),
               link_log = link_log s @ [EvExists u False, EvAdded u]\<rparr>)"
        using valid up vu nex h0
        by (simp add: add_def exists_def emit_def hmset_def Let_def kw3_def kw2_def kw1_def)
      moreover have "kw3 \<noteq> []" by (simp add: kw3_def)
      ultimately show ?thesis using nex by blast
    qed
  qed
qed

text \<open>An \<^verbatim>\<open>add\<close> that raises leaves the store alone and sends no \<^verbatim>\<open>added\<close> event.\<close>

lemma add_failure_keeps_store:
  "fst (add H salt kwargs s) = Inl e \<Longrightarrow>
   connection (snd (add H salt kwargs s)) = connection s
   \<and> (link_log (snd (add H salt kwargs s)) = link_log s
      \<or> (\<exists>u. link_log (snd (add H salt kwargs s)) = link_log s @ [EvExists u True]))"
  using add_outcome[of H salt kwargs s]
  by (elim disjE exE conjE) (simp_all add: emit_def)

text \<open>What a returning \<^verbatim>\<open>add\<close> has checked and what it has stored.\<close>

lemma add_returns:
  assumes ok: "add H salt kwargs s = (Inr name, s')"
    and dist: "distinct (map fst kwargs)"
  shows "\<exists>h password flag.
           map_of kwargs ''username'' = Some (PStr name)
         \<and> map_of kwargs ''password'' = Some (PStr password)
         \<and> jsonschema_validate kwargs add_schema
         \<and> validate_username name
         \<and> \<not> redis_exists (connection s) (key name)
         \<and> connection s' = AList.update (key name) h (connection s)
         \<and> link_log s' = link_log s @ [EvExists name False, EvAdded name]
         \<and> h \<noteq> [] \<and> distinct (map fst h)
         \<and> map_of h ''username'' = Some name
         \<and> map_of h ''system'' = Some flag
         \<and> map_of h ''encrypted'' = None
         \<and> map_of h ''password''
              = Some (if truthy (case map_of kwargs ''encrypted'' of
                                   None \<Rightarrow> encrypted_default | Some v \<Rightarrow> v)
                      then password else encrypt H salt password)"
proof -
  from ok have valid: "jsonschema_validate kwargs add_schema"
    by (auto simp: add_def split: if_splits)
  from schema_add_fields[OF valid] obtain u p where
    up: "map_of kwargs ''username'' = Some (PStr u)"
        "map_of kwargs ''password'' = Some (PStr p)"
    by blast
  from ok valid up have vu: "validate_username u"
    by (auto simp: add_def split: if_splits)
  from ok valid up vu have nex: "\<not> redis_exists (connection s) (key u)"
    by (auto simp: add_def exists_def split: if_splits)
  define kw1 where "kw1 = (if \<not> truthy (case map_of kwargs ''encrypted'' of
                                         None \<Rightarrow> encrypted_default | Some v \<Rightarrow> v)
                         then AList.update ''password'' (PStr (encrypt H salt p)) kwargs
                         else kwargs)"
  define kw2 where "kw2 = (if map_of kw1 ''encrypted'' \<noteq> None
                         then AList.delete ''encrypted'' kw1 else kw1)"
  define kw3 where "kw3 = AList.update ''system''
                          (case map_of kw2 ''system'' of None \<Rightarrow> system_default | Some v \<Rightarrow> v)
                          kw2"
  define h where "h = hset_all kw3 (hash_at (connection s) (key u))"
  have h0: "hash_at (connection s) (key u) = []" using nex by (simp add: redis_exists_def)
  have res: "add H salt kwargs s =
      (Inr u, \<lparr>connection = AList.update (key u) h (connection s),
               link_log = link_log s @ [EvExists u False, EvAdded u]\<rparr>)"
    using valid up vu nex
    by (simp add: add_def exists_def emit_def hmset_def Let_def h_def kw3_def kw2_def kw1_def)
  with ok have name: "name = u"
    and s': "s' = \<lparr>connection = AList.update (key u) h (connection s),
                   link_log = link_log s @ [EvExists u False, EvAdded u]\<rparr>"
    by auto
  have d1: "distinct (map fst kw1)" using dist by (simp add: kw1_def distinct_update)
  have d2: "distinct (map fst kw2)" using d1 by (simp add: kw2_def distinct_delete)
  have d3: "distinct (map fst kw3)" using d2 by (simp add: kw3_def distinct_update)
  have look: "map_of h f = map_option py_str (map_of kw3 f)" for f
    unfolding h_def h0 hset_all_def using map_of_fold_update[OF d3, of py_str "[]" f]
    by (simp split: option.splits)
  have hne: "h \<noteq> []" unfolding h_def hset_all_def
    by (rule fold_update_nonempty) (simp add: kw3_def)
  have hd: "distinct (map fst h)" unfolding h_def hset_all_def h0
    by (rule distinct_fold_update) simp
  have l_user: "map_of kw3 ''username'' = Some (PStr u)"
    using up by (simp add: kw3_def kw2_def kw1_def update_conv' delete_conv')
  have l_enc: "map_of kw3 ''encrypted'' = None"
    by (auto simp add: kw3_def kw2_def update_conv' delete_conv')
  have l_pw: "map_of kw3 ''password''
                = Some (PStr (if truthy (case map_of kwargs ''encrypted'' of
                                           None \<Rightarrow> encrypted_default | Some v \<Rightarrow> v)
                              then p else encrypt H salt p))"
    using up
    by (auto simp add: kw3_def kw2_def kw1_def update_conv' delete_conv' split: option.splits)
  have "\<exists>v. map_of kw3 ''system'' = Some v"
    by (simp add: kw3_def update_conv')
  then obtain v where "map_of kw3 ''system'' = Some v" ..
  then have "map_of h ''system'' = Some (py_str v)" by (simp add: look)
  then show ?thesis
    using up valid vu nex s' hne hd l_user l_enc l_pw name
    by (intro exI[of _ h] exI[of _ p] exI[of _ "py_str v"]) (simp add: look)
qed

text \<open>
  Claim C6. When the key of the username exists already, an \<^verbatim>\<open>add\<close> that passes the
  schema and the username check raises \<^verbatim>\<open>UserAlreadyExists\<close>; the store is the one
  before the call and the only message sent is the \<^verbatim>\<open>exists\<close> event of the check,
  so no \<^verbatim>\<open>added\<close> event is emitted.
\<close>

theorem add_existing_user:
  assumes "jsonschema_validate kwargs add_schema"
    and "map_of kwargs ''username'' = Some (PStr u)"
    and "validate_username u"
    and "redis_exists (connection s) (key u)"
  shows "add H salt kwargs s
           = (Inl UserAlreadyExists, s\<lparr>link_log := link_log s @ [EvExists u True]\<rparr>)"
proof -
  from schema_add_fields[OF assms(1)] assms(2)
  obtain p where "map_of kwargs ''password'' = Some (PStr p)" by auto
  with assms show ?thesis by (simp add: add_def exists_def emit_def)
qed

theorem add_existing_user_witness:
  "jsonschema_validate [(''username'', PStr ''alice''), (''password'', PStr ''other'')] add_schema
   \<and> validate_username ''alice''
   \<and> redis_exists (connection demo_state) (key ''alice'')
   \<and> add demo_pbkdf2 0 [(''username'', PStr ''alice''), (''password'', PStr ''other'')] demo_state
       = (Inl UserAlreadyExists,
          \<lparr>connection = connection demo_state, link_log = [EvExists ''alice'' True]\<rparr>)"
proof -
  let ?kw = "[(''username'', PStr ''alice''), (''password'', PStr ''other'')]"
  have a: "jsonschema_validate ?kw add_schema"
    by (simp add: jsonschema_validate_def add_schema_def schema_def)
  have b: "map_of ?kw ''username'' = Some (PStr ''alice'')" by simp
  have c: "validate_username ''alice''" by (simp add: validate_username_ascii)
  have d: "redis_exists (connection demo_state) (key ''alice'')"
    by (simp add: demo_state_def redis_exists_def hash_at_def key_def)
  show ?thesis
    using a c d add_existing_user[OF a b c d, of demo_pbkdf2 0]
    by (simp add: demo_state_def)
qed

section \<open>Authentication\<close>

text \<open>
  A password shorter than the block and the same password followed by a NUL byte give
  the same key block, whatever the parameters of the hash function are.
\<close>

lemma nul_suffix_same_key:
  assumes "length p < 64"
  shows "hmac_key H (p @ [CHR 0x00]) = hmac_key H p"
proof -
  from assms have "64 - length p = Suc (64 - Suc (length p))" by simp
  then have "replicate (64 - length p) (CHR 0x00)
               = CHR 0x00 # replicate (64 - Suc (length p)) (CHR 0x00)"
    by (metis replicate_Suc)
  with assms show ?thesis by (simp add: hmac_key_def)
qed

lemma verify_hash:
  assumes "\<forall>k salt. salt_of H (derive H k salt) = Some salt"
  shows "verify H q (hash H salt p) = Some (hash H salt q = hash H salt p)"
  using assms by (simp add: verify_def hash_def)

text \<open>
  After an \<^verbatim>\<open>add\<close> of a plain password has returned, \<^verbatim>\<open>authenticate\<close> answers
  whether the hash derived from the password it is given, under the salt of the stored
  hash, is the stored hash.
\<close>

lemma authenticate_after_add:
  assumes parse: "\<forall>k salt. salt_of H (derive H k salt) = Some salt"
    and dict: "distinct (map fst kwargs)"
    and pw: "map_of kwargs ''password'' = Some (PStr password)"
    and plain: "\<not> truthy (case map_of kwargs ''encrypted'' of
                             None \<Rightarrow> encrypted_default | Some v \<Rightarrow> v)"
    and added: "add H salt kwargs s = (Inr username, s')"
  shows "fst (authenticate H username q False s')
           = Inr (hash H salt q = hash H salt password)"
proof -
  from add_returns[OF added dict] pw plain obtain h flag where
    h: "connection s' = AList.update (key username) h (connection s)" "h \<noteq> []"
       "distinct (map fst h)" "map_of h ''system'' = Some flag"
       "map_of h ''password'' = Some (encrypt H salt password)"
    by auto
  have at: "hash_at (connection s') (key username) = h" by (simp add: h(1) hash_at_update)
  let ?user = "pairs_to_dict (hgetall_reply (connection s') (key username))"
  have ne: "?user \<noteq> []" using at h(2) by (simp add: unsafe_view_nonempty redis_exists_def)
  have sys: "map_of ?user ''system'' = Some (Some flag)"
    and pass: "map_of ?user ''password'' = Some (Some (hash H salt password))"
    using at h(3,4,5) by (simp_all add: unsafe_view_lookup encrypt_def)
  show ?thesis
    unfolding authenticate_def get_unsafe using ne sys pass
    by (simp add: Let_def verify_hash[OF parse])
qed

lemma dropWhile_run: "dropWhile (\<lambda>c. c = x) (replicate n x @ ys) = dropWhile (\<lambda>c. c = x) ys"
  by (induction n) simp_all

lemma takeWhile_run: "y \<noteq> x \<Longrightarrow> takeWhile (\<lambda>c. c = x) (replicate n x @ y # ys) = replicate n x"
  by (induction n) simp_all

lemma strip_nul_padding: "strip_nul (p @ replicate n (CHR 0x00)) = strip_nul p"
  by (simp add: strip_nul_def dropWhile_run)

lemma demo_parse: "\<forall>k salt. salt_of demo_pbkdf2 (derive demo_pbkdf2 k salt) = Some salt"
  by (simp add: demo_pbkdf2_def takeWhile_run)

lemma demo_hash:
  "length p \<le> 64 \<Longrightarrow>
   hash demo_pbkdf2 salt p = replicate salt (CHR ''$'') @ CHR ''#'' # strip_nul p"
  by (simp add: hash_def hmac_key_def demo_pbkdf2_def strip_nul_padding)

lemma demo_hash_secret: "hash demo_pbkdf2 3 ''secret'' = ''$$$#secret''"
  by (simp add: demo_hash strip_nul_def numeral_3_eq_3)

lemma demo_add_alice:
  "add demo_pbkdf2 3 [(''username'', PStr ''alice''), (''password'', PStr ''secret'')] empty_state
     = (Inr ''alice'',
        \<lparr>connection = connection demo_state,
         link_log = [EvExists ''alice'' False, EvAdded ''alice'']\<rparr>)"
  by (simp add: validate_username_ascii add_def jsonschema_validate_def add_schema_def
        schema_def exists_def redis_exists_def hash_at_def empty_state_def key_def
        encrypted_default_def system_default_def hmset_def emit_def hset_all_def
        encrypt_def demo_hash_secret demo_state_def)

text \<open>
  Claim C2, as the specification states it, has \<^verbatim>\<open>authenticate\<close> return false for
  every password other than the one given to \<^verbatim>\<open>add\<close>. The password \<^verbatim>\<open>secret\<close>
  followed by a NUL byte is another password, has the same key block, and
  authenticates.
\<close>

theorem nul_padded_password_authenticates:
  "''secret'' @ [CHR 0x00] \<noteq> ''secret''
   \<and> fst (authenticate demo_pbkdf2 ''alice'' (''secret'' @ [CHR 0x00]) False
            (snd (add demo_pbkdf2 3
                    [(''username'', PStr ''alice''), (''password'', PStr ''secret'')]
                    empty_state))) = Inr True"
proof -
  let ?kw = "[(''username'', PStr ''alice''), (''password'', PStr ''secret'')]"
  have dict: "distinct (map fst ?kw)" by simp
  have pw: "map_of ?kw ''password'' = Some (PStr ''secret'')" by simp
  have plain: "\<not> truthy (case map_of ?kw ''encrypted'' of
                            None \<Rightarrow> encrypted_default | Some v \<Rightarrow> v)"
    by (simp add: encrypted_default_def)
  have key: "hmac_key demo_pbkdf2 (''secret'' @ [CHR 0x00]) = hmac_key demo_pbkdf2 ''secret''"
    by (rule nul_suffix_same_key) simp
  have added: "add demo_pbkdf2 3 ?kw empty_state
                 = (Inr ''alice'', snd (add demo_pbkdf2 3 ?kw empty_state))"
    by (simp add: demo_add_alice)
  have "fst (authenticate demo_pbkdf2 ''alice'' (''secret'' @ [CHR 0x00]) False
               (snd (add demo_pbkdf2 3 ?kw empty_state)))
          = Inr (hash demo_pbkdf2 3 (''secret'' @ [CHR 0x00]) = hash demo_pbkdf2 3 ''secret'')"
    by (rule authenticate_after_add[OF demo_parse dict pw plain added])
  then have "fst (authenticate demo_pbkdf2 ''alice'' (''secret'' @ [CHR 0x00]) False
               (snd (add demo_pbkdf2 3 ?kw empty_state))) = Inr True"
    unfolding hash_def key by simp
  then show ?thesis by simp
qed

text \<open>
  Claim C2, amended. Let a hash string of the library carry its salt. For a dictionary
  with a plain password that \<^verbatim>\<open>add\<close> accepts, \<^verbatim>\<open>authenticate\<close> with the username
  and that password then returns true; with another password it returns false exactly
  when the hash derived from that password under the stored salt differs from the
  stored hash, which a password with the same key block, such as the password
  followed by a NUL byte, does not.
\<close>

theorem add_then_authenticate:
  assumes parse: "\<forall>k salt. salt_of H (derive H k salt) = Some salt"
    and dict: "distinct (map fst kwargs)"
    and pw: "map_of kwargs ''password'' = Some (PStr password)"
    and plain: "\<not> truthy (case map_of kwargs ''encrypted'' of
                             None \<Rightarrow> encrypted_default | Some v \<Rightarrow> v)"
    and added: "add H salt kwargs s = (Inr username, s')"
  shows "fst (authenticate H username password False s') = Inr True
       \<and> (\<forall>wrong_password.
            fst (authenticate H username wrong_password False s')
              = Inr (hash H salt wrong_password = hash H salt password))
       \<and> (\<forall>wrong_password. hmac_key H wrong_password = hmac_key H password \<longrightarrow>
            fst (authenticate H username wrong_password False s') = Inr True)"
  using authenticate_after_add[OF parse dict pw plain added]
  by (simp add: hash_def)

theorem add_then_authenticate_witness:
  "add demo_pbkdf2 3 [(''username'', PStr ''alice''), (''password'', PStr ''secret'')] empty_state
     = (Inr ''alice'',
        \<lparr>connection = connection demo_state,
         link_log = [EvExists ''alice'' False, EvAdded ''alice'']\<rparr>)
   \<and> fst (authenticate demo_pbkdf2 ''alice'' ''secret'' False
            \<lparr>connection = connection demo_state,
             link_log = [EvExists ''alice'' False, EvAdded ''alice'']\<rparr>) = Inr True
   \<and> fst (authenticate demo_pbkdf2 ''alice'' ''guess'' False
            \<lparr>connection = connection demo_state,
             link_log = [EvExists ''alice'' False, EvAdded ''alice'']\<rparr>) = Inr False
   \<and> fst (authenticate demo_pbkdf2 ''alice'' (''secret'' @ [CHR 0x00]) False
            \<lparr>connection = connection demo_state,
             link_log = [EvExists ''alice'' False, EvAdded ''alice'']\<rparr>) = Inr True"
proof -
  let ?kw = "[(''username'', PStr ''alice''), (''password'', PStr ''secret'')]"
  have dict: "distinct (map fst ?kw)" by simp
  have pw: "map_of ?kw ''password'' = Some (PStr ''secret'')" by simp
  have plain: "\<not> truthy (case map_of ?kw ''encrypted'' of
                            None \<Rightarrow> encrypted_default | Some v \<Rightarrow> v)"
    by (simp add: encrypted_default_def)
  have key: "hmac_key demo_pbkdf2 (''secret'' @ [CHR 0x00]) = hmac_key demo_pbkdf2 ''secret''"
    by (rule nul_suffix_same_key) simp
  have guess: "hash demo_pbkdf2 3 ''guess'' \<noteq> hash demo_pbkdf2 3 ''secret''"
    by (simp add: demo_hash strip_nul_def)
  note t = add_then_authenticate[OF demo_parse dict pw plain demo_add_alice]
  let ?s = "\<lparr>connection = connection demo_state,
             link_log = [EvExists ''alice'' False, EvAdded ''alice'']\<rparr>"
  have a: "fst (authenticate demo_pbkdf2 ''alice'' ''secret'' False ?s) = Inr True"
    using t by blast
  have "fst (authenticate demo_pbkdf2 ''alice'' ''guess'' False ?s)
          = Inr (hash demo_pbkdf2 3 ''guess'' = hash demo_pbkdf2 3 ''secret'')"
    using t by blast
  then have b: "fst (authenticate demo_pbkdf2 ''alice'' ''guess'' False ?s) = Inr False"
    using guess by simp
  have c: "fst (authenticate demo_pbkdf2 ''alice'' (''secret'' @ [CHR 0x00]) False ?s)
             = Inr True"
    using t key by blast
  show ?thesis using a b c demo_add_alice by simp
qed

text \<open>
  Claim C3. For a record whose stored \<^verbatim>\<open>system\<close> flag is not the string
  \<^verbatim>\<open>True\<close>, \<^verbatim>\<open>authenticate\<close> with \<^verbatim>\<open>system=True\<close> returns false and emits, after
  the \<^verbatim>\<open>viewed\<close> event of the fetch, a \<^verbatim>\<open>failed\<close> event carrying the stored flag.
  The result depends neither on the password given nor on the hash function: the
  password is not compared.
\<close>

theorem system_scope_short_circuit:
  assumes "hash_at (connection s) (key username) = h" "h \<noteq> []" "distinct (map fst h)"
    and "map_of h ''system'' = Some flag" "flag \<noteq> ''True''"
  shows "authenticate H username password True s
           = (Inr False,
              s\<lparr>link_log := link_log s @ [EvViewed username, EvFailed username (Some flag)]\<rparr>)"
proof -
  let ?user = "pairs_to_dict (hgetall_reply (connection s) (key username))"
  have ne: "?user \<noteq> []" using assms(1,2) by (simp add: unsafe_view_nonempty redis_exists_def)
  have sys: "map_of ?user ''system'' = Some (Some flag)"
    using assms(1,3,4) by (simp add: unsafe_view_lookup)
  show ?thesis
    unfolding authenticate_def get_unsafe using ne sys assms(5)
    by (simp add: emit_def)
qed

text \<open>A record that has no \<^verbatim>\<open>system\<close> field makes \<^verbatim>\<open>authenticate\<close> raise.\<close>

lemma authenticate_without_flag:
  assumes "hash_at (connection s) (key username) = h" "h \<noteq> []" "distinct (map fst h)"
    and "map_of h ''system'' = None"
  shows "authenticate H username password system s
           = (Inl KeyError, emit (EvViewed username) s)"
proof -
  let ?user = "pairs_to_dict (hgetall_reply (connection s) (key username))"
  have ne: "?user \<noteq> []" using assms(1,2) by (simp add: unsafe_view_nonempty redis_exists_def)
  have sys: "map_of ?user ''system'' = None"
    using assms(1,3,4) by (simp add: unsafe_view_lookup)
  show ?thesis
    unfolding authenticate_def get_unsafe using ne sys by simp
qed

lemma demo_alice_password:
  "fst (authenticate demo_pbkdf2 ''alice'' ''secret'' False demo_state) = Inr True"
proof -
  have "verify demo_pbkdf2 ''secret'' ''$$$#secret'' = Some True"
    using verify_hash[OF demo_parse, of "''secret''" 3 "''secret''"]
    by (simp add: demo_hash_secret)
  then show ?thesis
    by (simp add: authenticate_def get_unsafe demo_state_def hgetall_reply_def hash_at_def
        key_def pairs_to_dict_def emit_def)
qed

theorem system_scope_short_circuit_witness:
  "fst (authenticate demo_pbkdf2 ''alice'' ''secret'' False demo_state) = Inr True
   \<and> authenticate demo_pbkdf2 ''alice'' ''secret'' True demo_state
       = (Inr False,
          \<lparr>connection = connection demo_state,
           link_log = [EvViewed ''alice'', EvFailed ''alice'' (Some ''False'')]\<rparr>)"
proof -
  let ?h = "[(''username'', ''alice''), (''password'', ''$$$#secret''), (''system'', ''False'')]"
  have a: "hash_at (connection demo_state) (key ''alice'') = ?h"
    by (simp add: demo_state_def hash_at_def key_def)
  have b: "?h \<noteq> []" and c: "distinct (map fst ?h)"
    and d: "map_of ?h ''system'' = Some ''False''" and e: "''False'' \<noteq> ''True''"
    by simp_all
  show ?thesis
    using system_scope_short_circuit[OF a b c d e, of demo_pbkdf2 "''secret''"]
      demo_alice_password
    by (simp add: demo_state_def)
qed

section \<open>Modifying a user\<close>

lemma schema_username:
  assumes "jsonschema_validate kwargs schema"
  shows "\<exists>u. map_of kwargs ''username'' = Some (PStr u)"
proof -
  from assms obtain a where a: "map_of kwargs ''username'' = Some a"
    by (auto simp: jsonschema_validate_def schema_def)
  with assms have "has_jtype JString a"
    by (auto simp: jsonschema_validate_def schema_def)
  then show ?thesis using a by (cases a) auto
qed

text \<open>
  \<^verbatim>\<open>modify\<close> either raises and leaves the state as it was, or writes a non-empty
  mapping under the key of the username, emits a \<^verbatim>\<open>changed\<close> event that lists the
  keys of that mapping, and returns the acknowledgment of \<^verbatim>\<open>hmset\<close>.
\<close>

lemma modify_outcome:
  "(\<exists>e. modify H salt kwargs s = (Inl e, s))
   \<or> (\<exists>u mapping. map_of kwargs ''username'' = Some (PStr u) \<and> mapping \<noteq> []
        \<and> modify H salt kwargs s =
            (Inr True,
             \<lparr>connection = AList.update (key u)
                             (hset_all mapping (hash_at (connection s) (key u))) (connection s),
              link_log = link_log s @ [EvChanged u (map fst mapping)]\<rparr>))"
proof (cases "jsonschema_validate kwargs schema")
  case False
  then show ?thesis by (simp add: modify_def)
next
  case valid: True
  from schema_username[OF valid] obtain u where
    u: "map_of kwargs ''username'' = Some (PStr u)"
    by blast
  define kw1e where "kw1e = (if \<not> truthy (case map_of kwargs ''encrypted'' of
                              None \<Rightarrow> encrypted_default | Some v \<Rightarrow> v)
              then (case map_of kwargs ''password'' of
                      None \<Rightarrow> Inl KeyError
                    | Some (PStr password) \<Rightarrow>
                        Inr (AList.update ''password'' (PStr (encrypt H salt password)) kwargs)
                    | Some _ \<Rightarrow> Inl TypeError)
              else Inr kwargs)"
  show ?thesis
  proof (cases kw1e)
    case (Inl e)
    then have "modify H salt kwargs s = (Inl e, s)"
      using valid by (simp add: modify_def kw1e_def)
    then show ?thesis by blast
  next
    case (Inr kw1)
    have u1: "map_of kw1 ''username'' = Some (PStr u)"
      using Inr u unfolding kw1e_def
      by (auto simp: update_conv' split: if_splits option.splits pyval.splits)
    define kw2 where "kw2 = (if map_of kw1 ''encrypted'' \<noteq> None
                       then AList.delete ''encrypted'' kw1 else kw1)"
    define kw3 where "kw3 = AList.delete ''username'' kw2"
    have m: "modify H salt kwargs s =
       (case hmset (connection s) (key u) kw3 of
          Inl e \<Rightarrow> (Inl e, s)
        | Inr (result, db) \<Rightarrow>
            (Inr result, emit (EvChanged u (map fst kw3)) (s\<lparr>connection := db\<rparr>)))"
      using valid Inr u1 unfolding modify_def kw1e_def[symmetric] kw3_def kw2_def
      by (auto simp add: Let_def delete_conv')
    show ?thesis
    proof (cases "kw3 = []")
      case True
      then have "modify H salt kwargs s = (Inl DataError, s)" by (simp add: m hmset_def)
      then show ?thesis by blast
    next
      case False
      then have "modify H salt kwargs s =
            (Inr True,
             \<lparr>connection = AList.update (key u)
                             (hset_all kw3 (hash_at (connection s) (key u))) (connection s),
              link_log = link_log s @ [EvChanged u (map fst kw3)]\<rparr>)"
        by (simp add: m hmset_def emit_def)
      with False u show ?thesis by blast
    qed
  qed
qed

text \<open>With a password and without \<^verbatim>\<open>encrypted\<close>, the password is hashed and written.\<close>

lemma modify_password:
  "modify H salt [(''username'', PStr u), (''password'', PStr p)] s
     = (Inr True,
        \<lparr>connection = AList.update (key u)
                        (AList.update ''password'' (hash H salt p) (hash_at (connection s) (key u)))
                        (connection s),
         link_log = link_log s @ [EvChanged u [''password'']]\<rparr>)"
  by (simp add: modify_def jsonschema_validate_def schema_def encrypted_default_def
        hmset_def hset_all_def emit_def encrypt_def)

text \<open>
  With \<^verbatim>\<open>encrypted\<close> set the password is written as given, other fields can be
  changed without a password, and a call that names no field to change is refused by
  \<^verbatim>\<open>hmset\<close>.
\<close>

lemma modify_encrypted:
  "modify H salt [(''username'', PStr u), (''password'', PStr p), (''encrypted'', PBool True)] s
     = (Inr True,
        \<lparr>connection = AList.update (key u)
                        (AList.update ''password'' p (hash_at (connection s) (key u)))
                        (connection s),
         link_log = link_log s @ [EvChanged u [''password'']]\<rparr>)"
  by (simp add: modify_def jsonschema_validate_def schema_def encrypted_default_def
        hmset_def hset_all_def emit_def encrypt_def)

lemma modify_system_encrypted:
  "modify H salt [(''username'', PStr u), (''system'', PBool b), (''encrypted'', PBool True)] s
     = (Inr True,
        \<lparr>connection = AList.update (key u)
                        (AList.update ''system'' (py_str (PBool b)) (hash_at (connection s) (key u)))
                        (connection s),
         link_log = link_log s @ [EvChanged u [''system'']]\<rparr>)"
  by (simp add: modify_def jsonschema_validate_def schema_def encrypted_default_def
        hmset_def hset_all_def emit_def encrypt_def)

lemma modify_nothing:
  "modify H salt [(''username'', PStr u), (''encrypted'', PBool True)] s = (Inl DataError, s)"
  by (simp add: modify_def jsonschema_validate_def schema_def encrypted_default_def
        hmset_def hset_all_def emit_def encrypt_def)

text \<open>
  Claim C8. The schema of \<^verbatim>\<open>modify\<close> requires the username only, yet without
  \<^verbatim>\<open>encrypted\<close> the function reads \<^verbatim>\<open>kwargs['password']\<close> whether or not a
  password was supplied. A call that changes the \<^verbatim>\<open>system\<close> flag alone passes the
  schema and then raises \<^verbatim>\<open>KeyError\<close>: nothing is written and no event is emitted.
\<close>

theorem modify_without_password:
  "jsonschema_validate [(''username'', PStr ''alice''), (''system'', PBool True)] schema
   \<and> modify H salt [(''username'', PStr ''alice''), (''system'', PBool True)] s
       = (Inl KeyError, s)"
  by (simp add: modify_def jsonschema_validate_def schema_def encrypted_default_def)

section \<open>The calls over a broker\<close>

text \<open>
  When the messages of a call are delivered, the call over the broker is the call of
  the section before.
\<close>

lemma exists_over_delivered:
  "B 0 \<Longrightarrow> exists_over B username s = (Inr (fst (exists username s)), snd (exists username s))"
  by (simp add: exists_over_def exists_def publish_def Let_def)

lemma get_over_delivered: "B 0 \<Longrightarrow> get_over B username safe s = get username safe s"
  by (simp add: get_over_def get_def publish_def Let_def)

lemma list_users_over_delivered:
  "B 0 \<Longrightarrow> list_users_over B safe s = (Inr (fst (list_users safe s)), snd (list_users safe s))"
  by (simp add: list_users_over_def list_users_def publish_def Let_def)

lemma get_one_field_over_delivered:
  "B 0 \<Longrightarrow> get_one_field_over B username field s = get_one_field username field s"
  by (simp add: get_one_field_over_def get_one_field_def publish_def Let_def)

lemma authenticate_over_delivered:
  "B 0 \<Longrightarrow> B 1 \<Longrightarrow>
   authenticate_over B H username password system s = authenticate H username password system s"
  by (auto simp add: authenticate_over_def authenticate_def get_over_delivered
        publish_def Let_def
      split: prod.splits sum.splits option.splits)

lemma publish_delivered: "publish True ev s = Inr (emit ev s)"
  by (simp add: publish_def)

lemma add_over_delivered:
  assumes "B 0" "B 1"
  shows "add_over B H salt kwargs s = add H salt kwargs s"
  unfolding add_over_def add_def exists_over_def exists_def Let_def
  using assms
  by (auto simp add: publish_delivered
      split: prod.splits sum.splits option.splits pyval.splits bool.splits)

lemma modify_over_delivered:
  assumes "B 0"
  shows "modify_over B H salt kwargs s = modify H salt kwargs s"
  unfolding modify_over_def modify_def Let_def
  using assms
  by (auto simp add: publish_delivered
      split: prod.splits sum.splits option.splits pyval.splits bool.splits)

section \<open>The life of a record\<close>

text \<open>
  The ways in which \<^verbatim>\<open>add\<close> can end over a broker: before the write with the
  store as it was, or after the write, returned or with \<^verbatim>\<open>TooManyRetries\<close> from the
  \<^verbatim>\<open>added\<close> event.
\<close>

lemma add_over_outcome:
  "(\<exists>e. add_over B H salt kwargs s = (Inl e, s) \<and> (e = TooManyRetries \<longrightarrow> \<not> B 0))
   \<or> (\<exists>u. add_over B H salt kwargs s = (Inl UserAlreadyExists, emit (EvExists u True) s))
   \<or> (\<exists>u mapping. mapping \<noteq> [] \<and> B 0
        \<and> map_of kwargs ''username'' = Some (PStr u)
        \<and> connection (snd (add_over B H salt kwargs s))
            = AList.update (key u) (hset_all mapping []) (connection s)
        \<and> (fst (add_over B H salt kwargs s) = Inr u
            \<or> fst (add_over B H salt kwargs s) = Inl TooManyRetries))"
proof (cases "jsonschema_validate kwargs add_schema")
  case False
  then show ?thesis by (simp add: add_over_def)
next
  case valid: True
  from schema_add_fields[OF valid] obtain u p where
    up: "map_of kwargs ''username'' = Some (PStr u)"
        "map_of kwargs ''password'' = Some (PStr p)"
    by blast
  show ?thesis
  proof (cases "validate_username u")
    case False
    then show ?thesis using valid up by (simp add: add_over_def)
  next
    case vu: True
    show ?thesis
    proof (cases "B 0")
      case False
      then have "add_over B H salt kwargs s = (Inl TooManyRetries, s)"
        using valid up vu by (simp add: add_over_def exists_over_def publish_def)
      with False show ?thesis by simp
    next
      case b0: True
      show ?thesis
      proof (cases "redis_exists (connection s) (key u)")
        case True
        then have "add_over B H salt kwargs s
                     = (Inl UserAlreadyExists, emit (EvExists u True) s)"
          using valid up vu b0 by (simp add: add_over_def exists_over_def publish_def)
        then show ?thesis by blast
      next
        case nex: False
        define kw1 where "kw1 = (if \<not> truthy (case map_of kwargs ''encrypted'' of
                                         None \<Rightarrow> encrypted_default | Some v \<Rightarrow> v)
                         then AList.update ''password'' (PStr (encrypt H salt p)) kwargs
                         else kwargs)"
        define kw2 where "kw2 = (if map_of kw1 ''encrypted'' \<noteq> None
                         then AList.delete ''encrypted'' kw1 else kw1)"
        define kw3 where "kw3 = AList.update ''system''
                          (case map_of kw2 ''system'' of None \<Rightarrow> system_default | Some v \<Rightarrow> v)
                          kw2"
        define db where "db = AList.update (key u) (hset_all kw3 []) (connection s)"
        define s1 where "s1 = emit (EvExists u False) s"
        have h0: "hash_at (connection s) (key u) = []"
          using nex by (simp add: redis_exists_def)
        have r: "add_over B H salt kwargs s =
           (if B 1 then (Inr u, emit (EvAdded u) (s1\<lparr>connection := db\<rparr>))
            else (Inl TooManyRetries, s1\<lparr>connection := db\<rparr>))"
        proof (cases "B 1")
          case True
          then show ?thesis
            using valid up vu nex h0 b0
            unfolding add_over_def exists_over_def db_def s1_def kw3_def kw2_def kw1_def
            by (simp add: publish_def emit_def hmset_def Let_def)
        next
          case False
          then show ?thesis
            using valid up vu nex h0 b0
            unfolding add_over_def exists_over_def db_def s1_def kw3_def kw2_def kw1_def
            by (simp add: publish_def emit_def hmset_def Let_def)
        qed
        have c: "connection (snd (add_over B H salt kwargs s)) = db"
          unfolding r by (simp add: emit_def s1_def)
        have f: "fst (add_over B H salt kwargs s) = Inr u
                 \<or> fst (add_over B H salt kwargs s) = Inl TooManyRetries"
          unfolding r by simp
        have "kw3 \<noteq> []" by (simp add: kw3_def)
        with c f b0 up(1) show ?thesis unfolding db_def by blast
      qed
    qed
  qed
qed

lemma add_over_exists_after:
  "redis_exists (connection (snd (add_over B H salt kwargs s))) k
     = (redis_exists (connection s) k
        \<or> (\<exists>u. add_wrote H (Add B salt kwargs) s u \<and> k = key u))"
  using add_over_outcome[of B H salt kwargs s]
  by (elim disjE exE conjE)
     (auto simp add: emit_def redis_exists_update hset_all_nonempty)

lemma modify_over_outcome:
  "(\<exists>e. modify_over B H salt kwargs s = (Inl e, s) \<and> e \<noteq> TooManyRetries)
   \<or> (\<exists>u mapping. map_of kwargs ''username'' = Some (PStr u) \<and> mapping \<noteq> []
        \<and> connection (snd (modify_over B H salt kwargs s))
            = AList.update (key u)
                (hset_all mapping (hash_at (connection s) (key u))) (connection s)
        \<and> (fst (modify_over B H salt kwargs s) = Inr True
            \<or> fst (modify_over B H salt kwargs s) = Inl TooManyRetries))"
proof (cases "jsonschema_validate kwargs schema")
  case False
  then show ?thesis by (simp add: modify_over_def)
next
  case valid: True
  from schema_username[OF valid] obtain u where
    u: "map_of kwargs ''username'' = Some (PStr u)"
    by blast
  define kw1e where "kw1e = (if \<not> truthy (case map_of kwargs ''encrypted'' of
                              None \<Rightarrow> encrypted_default | Some v \<Rightarrow> v)
              then (case map_of kwargs ''password'' of
                      None \<Rightarrow> Inl KeyError
                    | Some (PStr password) \<Rightarrow>
                        Inr (AList.update ''password'' (PStr (encrypt H salt password)) kwargs)
                    | Some _ \<Rightarrow> Inl TypeError)
              else Inr kwargs)"
  show ?thesis
  proof (cases kw1e)
    case (Inl e)
    then have ne: "e \<noteq> TooManyRetries"
      unfolding kw1e_def by (auto split: if_splits option.splits pyval.splits)
    from Inl have "modify_over B H salt kwargs s = (Inl e, s)"
      using valid by (simp add: modify_over_def kw1e_def)
    with ne show ?thesis by blast
  next
    case (Inr kw1)
    have u1: "map_of kw1 ''username'' = Some (PStr u)"
      using Inr u unfolding kw1e_def
      by (auto simp: update_conv' split: if_splits option.splits pyval.splits)
    define kw2 where "kw2 = (if map_of kw1 ''encrypted'' \<noteq> None
                       then AList.delete ''encrypted'' kw1 else kw1)"
    define kw3 where "kw3 = AList.delete ''username'' kw2"
    have m: "modify_over B H salt kwargs s =
       (if kw3 = [] then (Inl DataError, s)
        else if B 0
        then (Inr True,
              emit (EvChanged u (map fst kw3))
                (s\<lparr>connection := AList.update (key u)
                      (hset_all kw3 (hash_at (connection s) (key u))) (connection s)\<rparr>))
        else (Inl TooManyRetries,
              s\<lparr>connection := AList.update (key u)
                    (hset_all kw3 (hash_at (connection s) (key u))) (connection s)\<rparr>))"
    proof (cases "B 0")
      case True
      then show ?thesis
        using valid Inr u1 unfolding modify_over_def kw1e_def[symmetric] kw3_def kw2_def
        by (auto simp add: Let_def delete_conv' hmset_def publish_def)
    next
      case False
      then show ?thesis
        using valid Inr u1 unfolding modify_over_def kw1e_def[symmetric] kw3_def kw2_def
        by (auto simp add: Let_def delete_conv' hmset_def publish_def)
    qed
    show ?thesis
    proof (cases "kw3 = []")
      case True
      then have "modify_over B H salt kwargs s = (Inl DataError, s)"
        by (simp add: m)
      then show ?thesis by blast
    next
      case False
      then have c: "connection (snd (modify_over B H salt kwargs s))
            = AList.update (key u)
                (hset_all kw3 (hash_at (connection s) (key u))) (connection s)"
        and f: "fst (modify_over B H salt kwargs s) = Inr True
            \<or> fst (modify_over B H salt kwargs s) = Inl TooManyRetries"
        by (simp_all add: m emit_def)
      with False u show ?thesis by blast
    qed
  qed
qed

lemma modify_over_exists_after:
  "redis_exists (connection (snd (modify_over B H salt kwargs s))) k
     = (redis_exists (connection s) k
        \<or> (\<exists>u. modify_wrote H (Modify B salt kwargs) s u \<and> k = key u))"
  using modify_over_outcome[of B H salt kwargs s]
  by (elim disjE exE conjE)
     (auto simp add: redis_exists_update hset_all_nonempty)

lemma delete_exists_after:
  "redis_exists (connection (snd (delete username s))) k
     = (k \<noteq> key username \<and> redis_exists (connection s) k)"
  by (simp add: delete_def redis_delete_def redis_exists_delete)

lemma readers_keep_store:
  "connection (snd (exists_over B username s)) = connection s"
  "connection (snd (get_over B username safe s)) = connection s"
  "connection (snd (get_one_field_over B username field s)) = connection s"
  "connection (snd (list_users_over B safe s)) = connection s"
  by (simp_all add: exists_over_def get_over_def get_one_field_over_def list_users_over_def
        publish_def emit_def Let_def pipe_execute_def)

lemma get_over_unsafe:
  "get_over B username False s
     = (if B 0
        then (Inr (pairs_to_dict (hgetall_reply (connection s) (key username))),
              emit (EvViewed username) s)
        else (Inl TooManyRetries, s))"
  by (simp add: get_over_def pipe_execute_def publish_def)

lemma authenticate_keeps_store:
  "connection (snd (authenticate_over B H username password system s)) = connection s"
  by (simp add: authenticate_over_def get_over_unsafe publish_def emit_def Let_def
      split: option.splits sum.splits bool.splits)

lemma step_exists:
  "redis_exists (connection (step H c s)) (key u)
     = (if deletes c u then False
        else if add_wrote H c s u \<or> modify_wrote H c s u then True
        else redis_exists (connection s) (key u))"
proof (cases c)
  case (Add B salt kwargs)
  then show ?thesis by (auto simp: add_over_exists_after key_inject)
next
  case (Modify B salt kwargs)
  then show ?thesis by (auto simp: modify_over_exists_after key_inject)
next
  case (Delete username)
  then show ?thesis by (auto simp: delete_exists_after key_inject)
next
  case (Authenticate B username password system)
  then show ?thesis by (simp add: authenticate_keeps_store)
qed (simp_all add: readers_keep_store)

lemma demo_add_interrupted:
  "add_over first_only demo_pbkdf2 3
     [(''username'', PStr ''alice''), (''password'', PStr ''secret'')] empty_state
     = (Inl TooManyRetries,
        \<lparr>connection = connection demo_state, link_log = [EvExists ''alice'' False]\<rparr>)"
  by (simp add: validate_username_ascii add_over_def exists_over_def jsonschema_validate_def
        add_schema_def schema_def redis_exists_def hash_at_def empty_state_def key_def
        encrypted_default_def system_default_def hmset_def emit_def hset_all_def
        encrypt_def demo_hash_secret demo_state_def publish_def first_only_def)

lemma demo_add_refused:
  "add_over down demo_pbkdf2 3
     [(''username'', PStr ''alice''), (''password'', PStr ''secret'')] empty_state
     = (Inl TooManyRetries, empty_state)"
  by (simp add: validate_username_ascii add_over_def exists_over_def jsonschema_validate_def
        add_schema_def schema_def publish_def down_def)

lemma demo_add_delivered:
  "add_over up demo_pbkdf2 3
     [(''username'', PStr ''alice''), (''password'', PStr ''secret'')] empty_state
     = (Inr ''alice'',
        \<lparr>connection = connection demo_state,
         link_log = [EvExists ''alice'' False, EvAdded ''alice'']\<rparr>)"
  by (simp add: add_over_delivered up_def demo_add_alice)

lemma modify_over_password:
  "B 0 \<Longrightarrow>
   modify_over B H salt [(''username'', PStr u), (''password'', PStr p)] s
     = (Inr True,
        \<lparr>connection = AList.update (key u)
                        (AList.update ''password'' (hash H salt p) (hash_at (connection s) (key u)))
                        (connection s),
         link_log = link_log s @ [EvChanged u [''password'']]\<rparr>)"
  by (simp add: modify_over_delivered modify_password)

text \<open>
  Claim C7, as the specification states it, lets only an \<^verbatim>\<open>add\<close> that succeeded
  create a record. \<^verbatim>\<open>modify\<close> does not look whether the user exists: called for the
  unknown user \<^verbatim>\<open>ghost\<close> on an empty store it creates a record, though no \<^verbatim>\<open>add\<close>
  ever ran. And an \<^verbatim>\<open>add\<close> whose \<^verbatim>\<open>added\<close> event is not delivered raises
  \<^verbatim>\<open>TooManyRetries\<close> after it has written the record.
\<close>

theorem modify_creates_record:
  "redis_exists
     (connection (run demo_pbkdf2
        [Modify up 0 [(''username'', PStr ''ghost''), (''password'', PStr ''x'')]] empty_state))
     (key ''ghost'')
   \<and> \<not> added_not_deleted demo_pbkdf2 ''ghost''
         [Modify up 0 [(''username'', PStr ''ghost''), (''password'', PStr ''x'')]] empty_state
         (redis_exists (connection empty_state) (key ''ghost''))
   \<and> fst (add_over first_only demo_pbkdf2 3
             [(''username'', PStr ''alice''), (''password'', PStr ''secret'')] empty_state)
       = Inl TooManyRetries
   \<and> redis_exists
       (connection (run demo_pbkdf2
          [Add first_only 3 [(''username'', PStr ''alice''), (''password'', PStr ''secret'')]]
          empty_state))
       (key ''alice'')
   \<and> \<not> added_not_deleted demo_pbkdf2 ''alice''
         [Add first_only 3 [(''username'', PStr ''alice''), (''password'', PStr ''secret'')]]
         empty_state
         (redis_exists (connection empty_state) (key ''alice''))"
  by (simp add: modify_over_password up_def redis_exists_update demo_add_interrupted)
     (simp add: empty_state_def demo_state_def redis_exists_def hash_at_def key_def)

text \<open>
  Claim C7, amended. After any history of calls, a record exists for a username if and
  only if the last call among the \<^verbatim>\<open>add\<close>s and \<^verbatim>\<open>modify\<close>s for that username
  that got as far as their write (they returned, or raised \<^verbatim>\<open>TooManyRetries\<close> from
  the audit event that follows the write) and the \<^verbatim>\<open>delete\<close>s for it was an
  \<^verbatim>\<open>add\<close> or a \<^verbatim>\<open>modify\<close> (or, when there was no such call, the record existed
  before). No other call creates or removes a record.
\<close>

theorem record_lifecycle:
  "redis_exists (connection (run H cs s)) (key u)
     = written_not_deleted H u cs s (redis_exists (connection s) (key u))"
proof (induction cs arbitrary: s)
  case Nil
  show ?case by simp
next
  case (Cons c cs)
  show ?case by (simp add: Cons.IH step_exists)
qed

theorem record_lifecycle_witness:
  "redis_exists
     (connection (run demo_pbkdf2
        [Add up 3 [(''username'', PStr ''alice''), (''password'', PStr ''secret'')],
         Delete ''alice'',
         Modify up 0 [(''username'', PStr ''alice''), (''password'', PStr ''x'')]]
        empty_state))
     (key ''alice'') = True
   \<and> written_not_deleted demo_pbkdf2 ''alice''
        [Add up 3 [(''username'', PStr ''alice''), (''password'', PStr ''secret'')],
         Delete ''alice'',
         Modify up 0 [(''username'', PStr ''alice''), (''password'', PStr ''x'')]]
        empty_state
        (redis_exists (connection empty_state) (key ''alice'')) = True
   \<and> redis_exists
       (connection (run demo_pbkdf2
          [Add first_only 3 [(''username'', PStr ''alice''), (''password'', PStr ''secret'')],
           Exists up ''alice'']
          empty_state))
       (key ''alice'') = True
   \<and> written_not_deleted demo_pbkdf2 ''alice''
        [Add first_only 3 [(''username'', PStr ''alice''), (''password'', PStr ''secret'')],
         Exists up ''alice'']
        empty_state
        (redis_exists (connection empty_state) (key ''alice'')) = True
   \<and> redis_exists
       (connection (run demo_pbkdf2
          [Add down 3 [(''username'', PStr ''alice''), (''password'', PStr ''secret'')]]
          empty_state))
       (key ''alice'') = False
   \<and> written_not_deleted demo_pbkdf2 ''alice''
        [Add down 3 [(''username'', PStr ''alice''), (''password'', PStr ''secret'')]]
        empty_state
        (redis_exists (connection empty_state) (key ''alice'')) = False
   \<and> redis_exists
       (connection (run demo_pbkdf2
          [Add up 3 [(''username'', PStr ''alice''), (''password'', PStr ''secret'')],
           Get up ''alice'' True, Delete ''alice'']
          empty_state))
       (key ''alice'') = False
   \<and> written_not_deleted demo_pbkdf2 ''alice''
        [Add up 3 [(''username'', PStr ''alice''), (''password'', PStr ''secret'')],
         Get up ''alice'' True, Delete ''alice'']
        empty_state
        (redis_exists (connection empty_state) (key ''alice'')) = False"
proof -
  let ?kw = "[(''username'', PStr ''alice''), (''password'', PStr ''secret'')]"
  have none: "\<not> redis_exists (connection empty_state) (key ''alice'')"
    by (simp add: empty_state_def redis_exists_def hash_at_def)
  have a: "written_not_deleted demo_pbkdf2 ''alice''
        [Add up 3 ?kw, Delete ''alice'',
         Modify up 0 [(''username'', PStr ''alice''), (''password'', PStr ''x'')]]
        empty_state (redis_exists (connection empty_state) (key ''alice'')) = True"
    by (simp add: demo_add_delivered modify_over_password up_def)
  have b: "written_not_deleted demo_pbkdf2 ''alice''
        [Add first_only 3 ?kw, Exists up ''alice'']
        empty_state (redis_exists (connection empty_state) (key ''alice'')) = True"
    by (simp add: demo_add_interrupted first_only_def)
  have c: "written_not_deleted demo_pbkdf2 ''alice'' [Add down 3 ?kw]
        empty_state (redis_exists (connection empty_state) (key ''alice'')) = False"
    using none by (simp add: demo_add_refused down_def)
  have d: "written_not_deleted demo_pbkdf2 ''alice''
        [Add up 3 ?kw, Get up ''alice'' True, Delete ''alice'']
        empty_state (redis_exists (connection empty_state) (key ''alice'')) = False"
    by simp
  show ?thesis
    using a b c d
      record_lifecycle[of demo_pbkdf2
        "[Add up 3 ?kw, Delete ''alice'',
          Modify up 0 [(''username'', PStr ''alice''), (''password'', PStr ''x'')]]"
        empty_state "''alice''"]
      record_lifecycle[of demo_pbkdf2 "[Add first_only 3 ?kw, Exists up ''alice'']"
        empty_state "''alice''"]
      record_lifecycle[of demo_pbkdf2 "[Add down 3 ?kw]" empty_state "''alice''"]
      record_lifecycle[of demo_pbkdf2
        "[Add up 3 ?kw, Get up ''alice'' True, Delete ''alice'']" empty_state "''alice''"]
    by (simp only:) 
qed

section \<open>Connecting to the broker\<close>

lemma connect_exhausted:
  "max_retries m \<le> retries m \<Longrightarrow> connect broker m = (Inl TooManyRetries, m)"
  by (subst connect.simps) simp

lemma connect_opened:
  "retries m < max_retries m \<Longrightarrow> broker (attempted m) \<Longrightarrow>
   connect broker m
     = (Inr (), m\<lparr>channels := Some (attempted m), retries := 0,
                  attempted := Suc (attempted m)\<rparr>)"
  by (subst connect.simps) simp

lemma connect_closed:
  "retries m < max_retries m \<Longrightarrow> \<not> broker (attempted m) \<Longrightarrow>
   connect broker m =
     connect broker (m\<lparr>attempted := Suc (attempted m),
                       slept := slept m @ [retry_sleep_start m * (of_int (retries m)) ^ 2],
                       retries := retries m + 1\<rparr>)"
  by (subst connect.simps) (simp add: wait_def)

text \<open>
  A broker that refuses \<open>j\<close> attempts and accepts the next one: \<open>j\<close> waits, then
  the counter is back at 0.
\<close>

lemma connect_opens_after:
  "(\<forall>i<j. \<not> broker (attempted m + i)) \<Longrightarrow> broker (attempted m + j) \<Longrightarrow>
   retries m + int j < max_retries m \<Longrightarrow>
   connect broker m =
     (Inr (), m\<lparr>channels := Some (attempted m + j), retries := 0,
                  attempted := Suc (attempted m + j),
                  slept := slept m @ map (\<lambda>r. retry_sleep_start m * (of_int r) ^ 2)
                                         [retries m .. retries m + int j - 1]\<rparr>)"
proof (induction j arbitrary: m)
  case 0
  then show ?case by (simp add: connect_opened)
next
  case (Suc j)
  let ?m' = "m\<lparr>attempted := Suc (attempted m),
               slept := slept m @ [retry_sleep_start m * (of_int (retries m)) ^ 2],
               retries := retries m + 1\<rparr>"
  have nb: "\<not> broker (attempted m)" using Suc.prems(1) by (metis add.right_neutral zero_less_Suc)
  have lt: "retries m < max_retries m" using Suc.prems(3) by simp
  have step: "connect broker m = connect broker ?m'"
    using lt nb by (rule connect_closed)
  have a: "\<forall>i<j. \<not> broker (attempted ?m' + i)"
  proof (intro allI impI)
    fix i assume "i < j"
    then have "Suc i < Suc j" by simp
    with Suc.prems(1) have "\<not> broker (attempted m + Suc i)" by blast
    then show "\<not> broker (attempted ?m' + i)" by simp
  qed
  have b: "broker (attempted ?m' + j)" using Suc.prems(2) by simp
  have c: "retries ?m' + int j < max_retries ?m'" using Suc.prems(3) by simp
  have up: "[retries m .. retries m + int j] = retries m # [retries m + 1 .. retries m + int j]"
    by (simp add: upto_rec1)
  show ?case unfolding step Suc.IH[OF a b c] by (simp add: up)
qed

text \<open>A broker that never answers: the waits up to the bound, then the fatal error.\<close>

lemma connect_never_opened:
  "(\<forall>n. \<not> broker n) \<Longrightarrow> retries m \<le> max_retries m \<Longrightarrow>
   connect broker m =
     (Inl TooManyRetries,
      if retries m = max_retries m then m
      else m\<lparr>attempted := attempted m + nat (max_retries m - retries m),
             slept := slept m @ map (\<lambda>r. retry_sleep_start m * (of_int r) ^ 2)
                                    [retries m .. max_retries m - 1],
             retries := max_retries m\<rparr>)"
proof (induction broker m rule: connect.induct)
  case (1 broker m)
  show ?case
  proof (cases "retries m = max_retries m")
    case True
    then show ?thesis by (simp add: connect_exhausted)
  next
    case False
    with 1(3) have lt: "retries m < max_retries m" by simp
    let ?m' = "m\<lparr>attempted := Suc (attempted m),
                 slept := slept m @ [wait m], retries := retries m + 1\<rparr>"
    have nb: "\<not> broker (attempted m)" using 1(2) by simp
    have step: "connect broker m = connect broker ?m'"
      using lt nb by (subst connect.simps) simp
    have IH: "connect broker ?m' =
     (Inl TooManyRetries,
      if retries ?m' = max_retries ?m' then ?m'
      else ?m'\<lparr>attempted := attempted ?m' + nat (max_retries ?m' - retries ?m'),
             slept := slept ?m' @ map (\<lambda>r. retry_sleep_start ?m' * (of_int r) ^ 2)
                                    [retries ?m' .. max_retries ?m' - 1],
             retries := max_retries ?m'\<rparr>)"
      using lt nb 1(2) by (intro 1(1)) auto
    have up: "[retries m .. max_retries m - 1]
                = retries m # [retries m + 1 .. max_retries m - 1]"
      using lt by (simp add: upto_rec1)
    show ?thesis
    proof (cases "retries m + 1 = max_retries m")
      case True
      then have d: "max_retries m - retries m = 1" "max_retries m - 1 = retries m"
        by simp_all
      have "[retries m .. max_retries m - 1] = [retries m]"
        unfolding d by simp
      then show ?thesis unfolding step IH using True d(1)
        by (simp add: wait_def)
    next
      case F2: False
      with lt have "nat (max_retries m - retries m)
                      = Suc (nat (max_retries m - (retries m + 1)))"
        by simp
      then show ?thesis unfolding step IH using lt F2 False
        by (simp add: wait_def up)
    qed
  qed
qed

lemma init_never_opened:
  "1 \<le> N \<Longrightarrow> messenger_init (\<lambda>n. False) N w =
     (Inl TooManyRetries,
      \<lparr>retries = N, max_retries = N, retry_sleep_start = w, channels = None,
       attempted = nat (N - 1), slept = map (\<lambda>r. w * (of_int r) ^ 2) [1 .. N - 1]\<rparr>)"
  unfolding messenger_init_def
  by (subst connect_never_opened) (auto simp: upto_rec1)

text \<open>
  Claim C5. A failed attempt makes \<^verbatim>\<open>connect\<close> sleep \<^verbatim>\<open>retry_sleep_start\<close> times
  the square of \<^verbatim>\<open>retries\<close>, add one to \<^verbatim>\<open>retries\<close> and try again. Once
  \<^verbatim>\<open>retries\<close> has reached \<^verbatim>\<open>max_retries\<close>, \<^verbatim>\<open>connect\<close> raises
  \<^verbatim>\<open>TooManyRetries\<close> and the state, the sleeps with it, is as before. Started with
  \<^verbatim>\<open>retries = 1\<close> against a broker that never answers, the messenger sleeps
  \<open>w\<close>, \<open>4w\<close>, \<open>9w\<close>, \<open>\<dots>\<close> up to the square of \<^verbatim>\<open>max_retries\<close> minus one and
  then raises.
\<close>

theorem connect_backoff:
  "(retries m < max_retries m \<and> \<not> broker (attempted m) \<longrightarrow>
      connect broker m =
        connect broker (m\<lparr>attempted := Suc (attempted m),
                          slept := slept m @ [retry_sleep_start m * (of_int (retries m)) ^ 2],
                          retries := retries m + 1\<rparr>))
   \<and> (max_retries m' \<le> retries m' \<longrightarrow> connect broker' m' = (Inl TooManyRetries, m'))
   \<and> (1 \<le> N \<longrightarrow>
        messenger_init (\<lambda>n. False) N w =
          (Inl TooManyRetries,
           \<lparr>retries = N, max_retries = N, retry_sleep_start = w, channels = None,
            attempted = nat (N - 1),
            slept = map (\<lambda>r. w * (of_int r) ^ 2) [1 .. N - 1]\<rparr>))"
  using connect_closed[of m broker] connect_exhausted[of m' broker'] init_never_opened[of N w]
  by simp

theorem connect_backoff_witness:
  "messenger_init (\<lambda>n. False) 5 (1 / 10) =
     (Inl TooManyRetries,
      \<lparr>retries = 5, max_retries = 5, retry_sleep_start = 1 / 10, channels = None,
       attempted = 4, slept = [1 / 10, 4 / 10, 9 / 10, 16 / 10]\<rparr>)
   \<and> connect (\<lambda>n. False)
       \<lparr>retries = 5, max_retries = 5, retry_sleep_start = 1 / 10, channels = None,
        attempted = 4, slept = [1 / 10, 4 / 10, 9 / 10, 16 / 10]\<rparr> =
     (Inl TooManyRetries,
      \<lparr>retries = 5, max_retries = 5, retry_sleep_start = 1 / 10, channels = None,
       attempted = 4, slept = [1 / 10, 4 / 10, 9 / 10, 16 / 10]\<rparr>)
   \<and> connect (\<lambda>n. False)
       \<lparr>retries = 2, max_retries = 5, retry_sleep_start = 1 / 10, channels = None,
        attempted = 1, slept = [1 / 10]\<rparr> =
     connect (\<lambda>n. False)
       \<lparr>retries = 3, max_retries = 5, retry_sleep_start = 1 / 10, channels = None,
        attempted = 2, slept = [1 / 10, 4 / 10]\<rparr>"
  using connect_backoff[of
          "\<lparr>retries = 2, max_retries = 5, retry_sleep_start = 1 / 10, channels = None,
            attempted = 1, slept = [1 / 10]\<rparr>"
          "\<lambda>n. False"
          "\<lparr>retries = 5, max_retries = 5, retry_sleep_start = 1 / 10, channels = None,
            attempted = 4, slept = [1 / 10, 4 / 10, 9 / 10, 16 / 10]\<rparr>"
          "\<lambda>n. False" 5 "1 / 10"]
  by (simp add: upto_rec1 wait_def)

end
